theory Spec2Isabelle
  imports Main
begin

section \<open>The circular-import check of thriftcheck (checks/circular\_imports.go)\<close>

subsection \<open>Data model\<close>

text \<open>
  An \<open>ast.Include\<close> node: the include path as written and its source position.
  The code stores pointers to such nodes; the model stores the node's value.
\<close>

record ast_include =
  Path :: string
  Line :: int
  Column :: int

text \<open>
  The shared state \<open>C\<close> of the check. Every field is a Go map: a missing key is
  \<open>None\<close>. Vertex ids are Go \<open>int\<close>s; no computation of the check comes near the
  bounds of a 64-bit integer, so they are modelled as unbounded integers.
\<close>

record C =
  adjList :: "int \<rightharpoonup> int list"
  edgeMeta :: "int \<rightharpoonup> (int \<rightharpoonup> ast_include)"
  inDegrees :: "int \<rightharpoonup> int"
  filenameToId :: "string \<rightharpoonup> int"
  idToFilename :: "int \<rightharpoonup> string"

text \<open>
  The operating-system and path-library functions the check calls
  (\<open>os.Getwd\<close>, \<open>filepath.Abs\<close>, \<open>filepath.Rel\<close>, \<open>filepath.Base\<close>) are not part
  of the repository; they are parameters of the model. A failing call is \<open>None\<close>.
\<close>

record os_env =
  Getwd :: "string option"
  Abs :: "string \<Rightarrow> string option"
  Rel :: "string \<Rightarrow> string \<Rightarrow> string option"
  Base :: "string \<Rightarrow> string"

datatype error = CouldNotGetWd | CouldNotGetAbs string | RelFailed

text \<open>The two ways in which finalize can abort: the explicit panic of
  \<open>findCycleVertices\<close>, and the dereference of a nil \<open>*ast.Include\<close>.\<close>

datatype panic = Unreachable | NilDereference

text \<open>Reading a Go map at a missing key gives the zero value of the value type.\<close>

definition degree :: "(int \<rightharpoonup> int) \<Rightarrow> int \<Rightarrow> int" where
  "degree m v = (case m v of None \<Rightarrow> 0 | Some d \<Rightarrow> d)"

definition neighbours :: "(int \<rightharpoonup> int list) \<Rightarrow> int \<Rightarrow> int list" where
  "neighbours m v = (case m v of None \<Rightarrow> [] | Some vs \<Rightarrow> vs)"

subsection \<open>Path normalisation and vertex ids\<close>

definition getRelPath :: "os_env \<Rightarrow> string \<Rightarrow> error + string" where
  "getRelPath env f =
     (case Getwd env of
        None \<Rightarrow> Inl CouldNotGetWd
      | Some wd \<Rightarrow>
          (case Abs env f of
             None \<Rightarrow> Inl (CouldNotGetAbs f)
           | Some absP \<Rightarrow>
               (case Rel env wd absP of
                  None \<Rightarrow> Inl RelFailed
                | Some r \<Rightarrow> Inr r)))"

text \<open>\<open>getFilenameId\<close> returns the id and the updated state; \<open>len\<close> of a map is the
  number of its keys.\<close>

definition getFilenameId :: "C \<Rightarrow> string \<Rightarrow> int \<times> C" where
  "getFilenameId c f =
     (case filenameToId c f of
        Some n \<Rightarrow> (n, c)
      | None \<Rightarrow>
          (let nextId = int (card (dom (filenameToId c))) + 1
           in (nextId, c\<lparr>filenameToId := (filenameToId c)(f \<mapsto> nextId),
                          idToFilename := (idToFilename c)(nextId \<mapsto> f)\<rparr>)))"

subsection \<open>The visit function\<close>

text \<open>The body of the loop over \<open>[a, b]\<close> that makes sure a vertex has an
  adjacency list and an in-degree.\<close>

definition ensureVertex :: "int \<Rightarrow> C \<Rightarrow> C" where
  "ensureVertex v cc =
     (case adjList cc v of
        Some _ \<Rightarrow> cc
      | None \<Rightarrow> cc\<lparr>adjList := (adjList cc)(v \<mapsto> []),
                     inDegrees := (inDegrees cc)(v \<mapsto> 0)\<rparr>)"

text \<open>The edge insertion proper (lines 82 to 95), once both ids are known.\<close>

definition addEdge :: "int \<Rightarrow> int \<Rightarrow> ast_include \<Rightarrow> C \<Rightarrow> C" where
  "addEdge a b i cc =
     (let cc1 = fold ensureVertex [a, b] cc;
          cc2 = cc1\<lparr>inDegrees := (inDegrees cc1)(b \<mapsto> degree (inDegrees cc1) b + 1)\<rparr>;
          cc3 = cc2\<lparr>adjList := (adjList cc2)(a \<mapsto> neighbours (adjList cc2) a @ [b])\<rparr>
      in (case edgeMeta cc3 a of
            None \<Rightarrow> cc3\<lparr>edgeMeta := (edgeMeta cc3)(a \<mapsto> Map.empty(b \<mapsto> i))\<rparr>
          | Some _ \<Rightarrow> cc3))"

text \<open>The visit function \<open>fn\<close> of \<open>CheckCircularImport\<close>: \<open>filename\<close> is
  \<open>c.Filename\<close>, the file being visited.\<close>

definition visit :: "os_env \<Rightarrow> string \<Rightarrow> ast_include \<Rightarrow> C \<Rightarrow> C" where
  "visit env filename i cc =
     (case getRelPath env filename of
        Inl _ \<Rightarrow> cc
      | Inr importer \<Rightarrow>
          (case getRelPath env (Path i) of
             Inl _ \<Rightarrow> cc
           | Inr importee \<Rightarrow>
               (let (a, cc1) = getFilenameId cc importer;
                    (b, cc2) = getFilenameId cc1 importee
                in addEdge a b i cc2)))"

text \<open>The state created at registration: five empty maps.\<close>

definition circularImportCtx :: C where
  "circularImportCtx =
     \<lparr>adjList = Map.empty, edgeMeta = Map.empty, inDegrees = Map.empty,
      filenameToId = Map.empty, idToFilename = Map.empty\<rparr>"

text \<open>A run of the accumulating phase: the driver calls the visit function once per
  Include node, each with the name of the file that contains it.\<close>

fun visitAll :: "os_env \<Rightarrow> (string \<times> ast_include) list \<Rightarrow> C \<Rightarrow> C" where
  "visitAll env [] cc = cc"
| "visitAll env (e # es) cc = visitAll env es (visit env (fst e) (snd e) cc)"

text \<open>Vertex ids handed out for a sequence of paths, in order.\<close>

fun assignIds :: "string list \<Rightarrow> C \<Rightarrow> C" where
  "assignIds [] c = c"
| "assignIds (f # fs) c = assignIds fs (snd (getFilenameId c f))"


subsection \<open>The topological pass of lookForCycle\<close>

text \<open>
  Go leaves the order in which \<open>range\<close> walks a map unspecified. Each loop over
  \<open>adjList\<close> therefore takes the order it happens to use as a parameter: a list
  \<open>ks\<close> of the keys.

  The first loop counts and collects the vertices of in-degree zero.
\<close>

fun collectSources :: "(int \<rightharpoonup> int) \<Rightarrow> int list \<Rightarrow> int \<times> int list \<Rightarrow> int \<times> int list" where
  "collectSources inDeg [] st = st"
| "collectSources inDeg (v # vs) (count, sources) =
     (if degree inDeg v = 0 then collectSources inDeg vs (count + 1, sources @ [v])
      else collectSources inDeg vs (count, sources))"

text \<open>
  The innermost loop, over the neighbours of one source. The state is the in-degree
  map, the count and \<open>newSources\<close>. The code assigns \<open>append(sources, v)\<close> to
  \<open>newSources\<close>: the current worklist followed by \<open>v\<close>. Whether or not \<open>append\<close>
  reuses the backing array of \<open>sources\<close>, the slot it writes lies beyond the length
  of \<open>sources\<close>, so the elements that the enclosing \<open>range sources\<close> reads are
  not changed.
\<close>

fun relaxEdges ::
  "int list \<Rightarrow> int list \<Rightarrow> (int \<rightharpoonup> int) \<times> int \<times> int list \<Rightarrow> (int \<rightharpoonup> int) \<times> int \<times> int list" where
  "relaxEdges sources [] st = st"
| "relaxEdges sources (v # vs) (inDeg, count, newSources) =
     (let inDeg' = inDeg(v \<mapsto> degree inDeg v - 1)
      in if degree inDeg' v = 0 then relaxEdges sources vs (inDeg', count + 1, sources @ [v])
         else relaxEdges sources vs (inDeg', count, newSources))"

text \<open>The loop \<open>for _, source := range sources\<close>; \<open>todo\<close> is the part of
  \<open>sources\<close> still to be walked.\<close>

fun processSources ::
  "(int \<rightharpoonup> int list) \<Rightarrow> int list \<Rightarrow> int list \<Rightarrow> (int \<rightharpoonup> int) \<times> int \<times> int list
     \<Rightarrow> (int \<rightharpoonup> int) \<times> int \<times> int list" where
  "processSources adj sources [] st = st"
| "processSources adj sources (s # todo) st =
     processSources adj sources todo (relaxEdges sources (neighbours adj s) st)"

text \<open>The loop \<open>for len(sources) != 0\<close>. It may in principle run forever, so it is a
  partial function: \<open>None\<close> stands for a loop that does not return.\<close>

partial_function (option) drainSources ::
  "(int \<rightharpoonup> int list) \<Rightarrow> int list \<Rightarrow> (int \<rightharpoonup> int) \<Rightarrow> int \<Rightarrow> ((int \<rightharpoonup> int) \<times> int) option" where
  "drainSources adj sources inDeg count =
     (if sources = [] then Some (inDeg, count)
      else (case processSources adj sources sources (inDeg, count, []) of
              (inDeg', count', newSources) \<Rightarrow> drainSources adj newSources inDeg' count'))"

subsection \<open>The search for a cycle\<close>

text \<open>The loop of \<open>dfs\<close> over the current path: the suffix that starts at the first
  occurrence of \<open>cur\<close>.\<close>

fun cycleFrom :: "int \<Rightarrow> int list \<Rightarrow> int list option" where
  "cycleFrom cur [] = None"
| "cycleFrom cur (v # vs) = (if v = cur then Some (v # vs) else cycleFrom cur vs)"

text \<open>
  The loop of \<open>dfs\<close> over the neighbours, with the recursive call as a parameter. The
  two maps \<open>vis\<close> and \<open>globalVis\<close> are shared by all calls, so they are threaded
  through as a pair of sets; the result is the cycle found (or \<open>None\<close> for \<open>nil\<close>)
  with the sets as left behind.
\<close>

fun firstCycle ::
  "(int \<Rightarrow> int set \<times> int set \<Rightarrow> (int list option \<times> int set \<times> int set) option)
     \<Rightarrow> int list \<Rightarrow> int set \<times> int set \<Rightarrow> (int list option \<times> int set \<times> int set) option" where
  "firstCycle f [] st = Some (None, st)"
| "firstCycle f (v # vs) st =
     Option.bind (f v st)
       (\<lambda>r. case fst r of Some c \<Rightarrow> Some r | None \<Rightarrow> firstCycle f vs (snd r))"

lemma firstCycle_mono [partial_function_mono]:
  assumes "\<And>v st. mono_option (\<lambda>g. F g v st)"
  shows "mono_option (\<lambda>g. firstCycle (F g) vs st)"
proof (induction vs arbitrary: st)
  case Nil
  show ?case by (simp add: option.const_mono)
next
  case (Cons v vs)
  show ?case
    unfolding firstCycle.simps
  proof (rule bind_mono [OF assms])
    fix r :: "int list option \<times> int set \<times> int set"
    show "mono_option (\<lambda>g. case fst r of Some c \<Rightarrow> Some r | None \<Rightarrow> firstCycle (F g) vs (snd r))"
      by (cases "fst r") (simp_all add: Cons option.const_mono)
  qed
qed

partial_function (option) dfs ::
  "int \<Rightarrow> (int \<rightharpoonup> int list) \<Rightarrow> int list \<Rightarrow> int set \<times> int set
     \<Rightarrow> (int list option \<times> int set \<times> int set) option" where
  "dfs cur adj vertices st =
     (case (if cur \<in> fst st then cycleFrom cur vertices else None) of
        Some vs \<Rightarrow> Some (Some vs, st)
      | None \<Rightarrow>
          if cur \<in> snd st then Some (None, st)
          else firstCycle (\<lambda>v. dfs v adj (vertices @ [cur])) (neighbours adj cur)
                 (insert cur (fst st), insert cur (snd st)))"


text \<open>\<open>findCycleVertices\<close>: the loop over the keys of \<open>adjList\<close>, in the order
  \<open>ks\<close>. Each call of \<open>dfs\<close> starts with a fresh \<open>vis\<close> and the shared
  \<open>globalVis\<close>. Falling out of the loop is the panic.\<close>

fun searchCycle ::
  "(int \<rightharpoonup> int list) \<Rightarrow> int list \<Rightarrow> int set \<Rightarrow> (panic + int list) option" where
  "searchCycle adj [] globalVis = Some (Inl Unreachable)"
| "searchCycle adj (v # vs) globalVis =
     (case dfs v adj [] ({}, globalVis) of
        None \<Rightarrow> None
      | Some r \<Rightarrow>
          (case fst r of
             Some c \<Rightarrow> Some (Inr c)
           | None \<Rightarrow> searchCycle adj vs (snd (snd r))))"

definition findCycleVertices :: "int list \<Rightarrow> (int \<rightharpoonup> int list) \<Rightarrow> (panic + int list) option" where
  "findCycleVertices ks adj = searchCycle adj ks {}"

subsection \<open>lookForCycle and the finalize function\<close>

text \<open>The topological pass alone: the in-degree map it leaves behind and its count.
  \<open>ks\<close> is the order of the first loop over \<open>adjList\<close>.\<close>

definition topologicalPass ::
  "int list \<Rightarrow> (int \<rightharpoonup> int list) \<Rightarrow> (int \<rightharpoonup> int) \<Rightarrow> ((int \<rightharpoonup> int) \<times> int) option" where
  "topologicalPass ks adj inDeg =
     (case collectSources inDeg ks (0, []) of
        (count, sources) \<Rightarrow> drainSources adj sources inDeg count)"

text \<open>
  \<open>lookForCycle\<close> returns the pair of the code (\<open>nil\<close> is the empty list) or the
  panic, together with the in-degree map, which the caller shares and which the pass
  has written to. \<open>ks'\<close> is the order of the loop in \<open>findCycleVertices\<close>.
\<close>

definition lookForCycle ::
  "int list \<Rightarrow> int list \<Rightarrow> (int \<rightharpoonup> int list) \<Rightarrow> (int \<rightharpoonup> int)
     \<Rightarrow> ((panic + int list \<times> bool) \<times> (int \<rightharpoonup> int)) option" where
  "lookForCycle ks ks' adj inDeg =
     (case topologicalPass ks adj inDeg of
        None \<Rightarrow> None
      | Some (inDeg', count) \<Rightarrow>
          if count \<noteq> int (card (dom adj)) then
            (case findCycleVertices ks' adj of
               None \<Rightarrow> None
             | Some (Inl p) \<Rightarrow> Some (Inl p, inDeg')
             | Some (Inr vs) \<Rightarrow> Some (Inr (vs, True), inDeg'))
          else Some (Inr ([], False), inDeg'))"

text \<open>What finalize prints: the header line, then one entry per edge of the cycle
  with the six arguments of the \<open>Printf\<close>.\<close>

datatype out = CycleDetected | Edge string string string string int int

definition filenameOf :: "C \<Rightarrow> int \<Rightarrow> string" where
  "filenameOf cc v = (case idToFilename cc v of None \<Rightarrow> [] | Some f \<Rightarrow> f)"

definition metaOf :: "C \<Rightarrow> int \<Rightarrow> int \<Rightarrow> ast_include option" where
  "metaOf cc a b = (case edgeMeta cc a of None \<Rightarrow> None | Some m \<Rightarrow> m b)"

text \<open>The loop \<open>for i, im := range imports\<close>. A missing entry of \<open>edgeMeta\<close> is a
  nil pointer, and reading \<open>inc.Path\<close> panics before the entry is printed.\<close>

fun reportEdges ::
  "os_env \<Rightarrow> C \<Rightarrow> int list \<Rightarrow> (nat \<times> int) list \<Rightarrow> out list \<times> panic option" where
  "reportEdges env cc imports [] = ([], None)"
| "reportEdges env cc imports ((i, im) # rest) =
     (case metaOf cc im (imports ! ((i + 1) mod length imports)) of
        None \<Rightarrow> ([], Some NilDereference)
      | Some inc \<Rightarrow>
          (case reportEdges env cc imports rest of
             (outs, p) \<Rightarrow>
               (Edge (Base env (filenameOf cc im)) (Base env (Path inc)) (Path inc)
                  (filenameOf cc im) (Line inc) (Column inc) # outs, p)))"

text \<open>The finalize function: what was printed, the panic if there was one, and the
  state as finalize leaves it.\<close>

definition finalize ::
  "os_env \<Rightarrow> int list \<Rightarrow> int list \<Rightarrow> C \<Rightarrow> (out list \<times> panic option \<times> C) option" where
  "finalize env ks ks' cc =
     (case lookForCycle ks ks' (adjList cc) (inDegrees cc) of
        None \<Rightarrow> None
      | Some (r, inDeg') \<Rightarrow>
          (let cc' = cc\<lparr>inDegrees := inDeg'\<rparr>
           in case r of
                Inl p \<Rightarrow> Some ([], Some p, cc')
              | Inr (imports, cycle) \<Rightarrow>
                  if cycle then
                    (case reportEdges env cc' imports (enumerate 0 imports) of
                       (outs, p) \<Rightarrow> Some (CycleDetected # outs, p, cc'))
                  else Some ([], None, cc')))"

subsection \<open>Notions used to state the properties\<close>

text \<open>The edge insertions of a run, in order: the normalised (importer, importee)
  pair of every visit whose two paths could both be normalised.\<close>

fun insertions :: "os_env \<Rightarrow> (string \<times> ast_include) list \<Rightarrow> (string \<times> string) list" where
  "insertions env [] = []"
| "insertions env (e # es) =
     (case getRelPath env (fst e) of
        Inl _ \<Rightarrow> insertions env es
      | Inr importer \<Rightarrow>
          (case getRelPath env (Path (snd e)) of
             Inl _ \<Rightarrow> insertions env es
           | Inr importee \<Rightarrow> (importer, importee) # insertions env es))"

text \<open>The vertex ids are well formed: finitely many paths have one, no two paths share
  one, and the ids in use lie between 1 and the number of paths.\<close>

definition idsOk :: "C \<Rightarrow> bool" where
  "idsOk c \<longleftrightarrow>
     finite (dom (filenameToId c))
     \<and> inj_on (filenameToId c) (dom (filenameToId c))
     \<and> (\<forall>f n. filenameToId c f = Some n \<longrightarrow> 1 \<le> n \<and> n \<le> int (card (dom (filenameToId c))))"


text \<open>The number of edge insertions in a trace that have the path \<open>q\<close> as importee.\<close>

definition targeting :: "string \<Rightarrow> (string \<times> string) list \<Rightarrow> int" where
  "targeting q ins = int (length (filter (\<lambda>e. snd e = q) ins))"

text \<open>The invariant that relates the state to the run \<open>evs\<close> that produced it.\<close>

definition graphInv :: "os_env \<Rightarrow> (string \<times> ast_include) list \<Rightarrow> C \<Rightarrow> bool" where
  "graphInv env evs cc \<longleftrightarrow>
     idsOk cc
     \<and> dom (inDegrees cc) = dom (adjList cc)
     \<and> dom (adjList cc) = ran (filenameToId cc)
     \<and> (\<forall>v. set (neighbours (adjList cc) v) \<subseteq> dom (adjList cc))
     \<and> (\<forall>e \<in> set (insertions env evs). fst e \<in> dom (filenameToId cc) \<and> snd e \<in> dom (filenameToId cc))
     \<and> (\<forall>q v. filenameToId cc q = Some v \<longrightarrow> degree (inDegrees cc) v = targeting q (insertions env evs))"


text \<open>The vertices whose in-degree entry is still positive.\<close>

definition positive :: "(int \<rightharpoonup> int) \<Rightarrow> int set" where
  "positive inDeg = {v. 0 < degree inDeg v}"


text \<open>The edges of the graph an adjacency map stands for, and what it means for it
  to have a directed cycle.\<close>

definition edges :: "(int \<rightharpoonup> int list) \<Rightarrow> (int \<times> int) set" where
  "edges adj = {(u, v). v \<in> set (neighbours adj u)}"

definition hasCycle :: "(int \<rightharpoonup> int list) \<Rightarrow> bool" where
  "hasCycle adj \<longleftrightarrow> \<not> acyclic (edges adj)"

text \<open>The number of adjacency-list entries that name the vertex \<open>v\<close>, over all
  adjacency lists of the map.\<close>

definition entries :: "(int \<rightharpoonup> int list) \<Rightarrow> int \<Rightarrow> nat" where
  "entries adj v = (\<Sum>u \<in> dom adj. count_list (neighbours adj u) v)"

text \<open>A list of vertices in which each is an out-neighbour of the one before it; and a
  cycle as finalize reads one: a non-empty list that is such a path when closed back to
  its first vertex.\<close>

fun isPath :: "(int \<rightharpoonup> int list) \<Rightarrow> int list \<Rightarrow> bool" where
  "isPath adj [] = True"
| "isPath adj [v] = True"
| "isPath adj (u # v # vs) = (v \<in> set (neighbours adj u) \<and> isPath adj (v # vs))"

definition isCycle :: "(int \<rightharpoonup> int list) \<Rightarrow> int list \<Rightarrow> bool" where
  "isCycle adj c \<longleftrightarrow> c \<noteq> [] \<and> isPath adj (c @ [hd c])"

text \<open>
  A concrete environment for the examples. It is a stand-in for the operating system,
  not a model of it: the working directory is \<open>/w\<close>; a relative path is taken from
  there, with a leading \<open>./\<close> dropped; a path below the working directory is made
  relative by dropping the directory. \<open>noWdEnv\<close> is the same environment with a
  failing \<open>os.Getwd\<close>.
\<close>

definition demoEnv :: os_env where
  "demoEnv =
     \<lparr>Getwd = Some ''/w'',
      Abs = (\<lambda>f. Some (if take 1 f = ''/'' then f
                        else ''/w/'' @ (if take 2 f = ''./'' then drop 2 f else f))),
      Rel = (\<lambda>wd p. if take (length wd + 1) p = wd @ ''/'' then Some (drop (length wd + 1) p)
                     else None),
      Base = (\<lambda>f. rev (takeWhile (\<lambda>c. c \<noteq> CHR ''/'') (rev f)))\<rparr>"

definition noWdEnv :: os_env where
  "noWdEnv = demoEnv\<lparr>Getwd := None\<rparr>"

text \<open>An Include node with the given path, at line \<open>n\<close>, column 1.\<close>

definition includeAt :: "int \<Rightarrow> string \<Rightarrow> ast_include" where
  "includeAt n p = \<lparr>Path = p, Line = n, Column = 1\<rparr>"

text \<open>
  The runs of the examples. Ids are handed out in order of first sight, so in
  \<open>forkRun\<close> the files s, a, b, c are the vertices 1, 2, 3, 4.
\<close>

definition forkRun :: "(string \<times> ast_include) list" where
  "forkRun =
     [(''s.thrift'', includeAt 1 ''a.thrift''), (''s.thrift'', includeAt 2 ''b.thrift''),
      (''a.thrift'', includeAt 1 ''c.thrift'')]"

text \<open>The same three includes, with the two includes of s visited in the other order:
  s, b, a, c are the vertices 1, 2, 3, 4.\<close>

definition forkRunSwapped :: "(string \<times> ast_include) list" where
  "forkRunSwapped =
     [(''s.thrift'', includeAt 2 ''b.thrift''), (''s.thrift'', includeAt 1 ''a.thrift''),
      (''a.thrift'', includeAt 1 ''c.thrift'')]"

text \<open>s includes t and a; a and b include each other: s, t, a, b are 1, 2, 3, 4.\<close>

definition hiddenCycleRun :: "(string \<times> ast_include) list" where
  "hiddenCycleRun =
     [(''s.thrift'', includeAt 1 ''t.thrift''), (''s.thrift'', includeAt 2 ''a.thrift''),
      (''a.thrift'', includeAt 1 ''b.thrift''), (''b.thrift'', includeAt 1 ''a.thrift'')]"

text \<open>a includes b and c: a, b, c are 1, 2, 3. In the second run c includes a back.\<close>

definition twoImportsRun :: "(string \<times> ast_include) list" where
  "twoImportsRun =
     [(''a.thrift'', includeAt 1 ''b.thrift''), (''a.thrift'', includeAt 2 ''c.thrift'')]"

definition backImportRun :: "(string \<times> ast_include) list" where
  "backImportRun = twoImportsRun @ [(''c.thrift'', includeAt 1 ''a.thrift'')]"

text \<open>a includes b twice, under two spellings of the path.\<close>

definition twiceRun :: "(string \<times> ast_include) list" where
  "twiceRun =
     [(''a.thrift'', includeAt 1 ''b.thrift''), (''a.thrift'', includeAt 2 ''./b.thrift'')]"

text \<open>a includes b, then c, then b again under another spelling.\<close>

definition interleavedRun :: "(string \<times> ast_include) list" where
  "interleavedRun =
     [(''a.thrift'', includeAt 1 ''b.thrift''), (''a.thrift'', includeAt 2 ''c.thrift''),
      (''a.thrift'', includeAt 3 ''./b.thrift'')]"

text \<open>a includes b, once.\<close>

definition singleRun :: "(string \<times> ast_include) list" where
  "singleRun = [(''a.thrift'', includeAt 1 ''b.thrift'')]"

lemma getRelPath_demo [simp]:
  "getRelPath demoEnv ''s.thrift'' = Inr ''s.thrift''"
  "getRelPath demoEnv ''t.thrift'' = Inr ''t.thrift''"
  "getRelPath demoEnv ''a.thrift'' = Inr ''a.thrift''"
  "getRelPath demoEnv ''b.thrift'' = Inr ''b.thrift''"
  "getRelPath demoEnv ''c.thrift'' = Inr ''c.thrift''"
  "getRelPath demoEnv ''./b.thrift'' = Inr ''b.thrift''"
  by (simp_all add: getRelPath_def demoEnv_def)

section \<open>Vertex ids\<close>

lemma getFilenameId_stable:
  "filenameToId c g = Some n \<Longrightarrow> filenameToId (snd (getFilenameId c f)) g = Some n"
  by (auto simp: getFilenameId_def Let_def split: option.splits)


lemma getFilenameId_dom:
  "dom (filenameToId (snd (getFilenameId c f))) = insert f (dom (filenameToId c))"
  by (auto simp: getFilenameId_def Let_def split: option.splits)






lemma idsOk_init: "idsOk circularImportCtx"
  by (simp add: idsOk_def circularImportCtx_def)

lemma idsOk_fresh_id:
  assumes "idsOk c"
  shows "int (card (dom (filenameToId c))) + 1 \<notin> ran (filenameToId c)"
proof
  assume "int (card (dom (filenameToId c))) + 1 \<in> ran (filenameToId c)"
  then obtain f where "filenameToId c f = Some (int (card (dom (filenameToId c))) + 1)"
    by (auto simp: ran_def)
  with assms have "int (card (dom (filenameToId c))) + 1 \<le> int (card (dom (filenameToId c)))"
    unfolding idsOk_def by blast
  then show False by simp
qed

lemma idsOk_getFilenameId:
  assumes "idsOk c"
  shows "idsOk (snd (getFilenameId c f))"
proof (cases "filenameToId c f")
  case (Some n)
  then show ?thesis using assms by (simp add: getFilenameId_def)
next
  case None
  let ?n = "int (card (dom (filenameToId c))) + 1"
  let ?m = "(filenameToId c)(f \<mapsto> ?n)"
  have m: "filenameToId (snd (getFilenameId c f)) = ?m"
    using None by (simp add: getFilenameId_def Let_def)
  have fin: "finite (dom (filenameToId c))" using assms by (simp add: idsOk_def)
  have fd: "f \<notin> dom (filenameToId c)" using None by blast
  have card: "card (dom ?m) = Suc (card (dom (filenameToId c)))"
    using fin fd by simp
  have fresh: "?n \<notin> ran (filenameToId c)" by (rule idsOk_fresh_id [OF assms])
  have notn: "filenameToId c g \<noteq> Some ?n" for g
    using fresh by (auto simp: ran_def)
  have inj0: "inj_on (filenameToId c) (dom (filenameToId c))"
    using assms by (simp add: idsOk_def)
  have inj: "inj_on ?m (dom ?m)"
  proof (rule inj_onI)
    fix x y assume x: "x \<in> dom ?m" and y: "y \<in> dom ?m" and e: "?m x = ?m y"
    show "x = y"
    proof (cases "x = f")
      case True
      show ?thesis
      proof (rule ccontr)
        assume "x \<noteq> y"
        with True e have "filenameToId c y = Some ?n" by simp
        with notn show False by blast
      qed
    next
      case xf: False
      show ?thesis
      proof (cases "y = f")
        case True
        with xf e have "filenameToId c x = Some ?n" by simp
        with notn show ?thesis by blast
      next
        case False
        with xf e x y have "filenameToId c x = filenameToId c y"
          and "x \<in> dom (filenameToId c)" and "y \<in> dom (filenameToId c)"
          by simp_all
        then show ?thesis by (rule inj_onD [OF inj0])
      qed
    qed
  qed
  have bound: "\<forall>g k. ?m g = Some k \<longrightarrow> 1 \<le> k \<and> k \<le> int (card (dom ?m))"
  proof (intro allI impI)
    fix g k assume gk: "?m g = Some k"
    show "1 \<le> k \<and> k \<le> int (card (dom ?m))"
    proof (cases "g = f")
      case True
      with gk have "k = ?n" by simp
      then show ?thesis unfolding card by simp
    next
      case False
      with gk have "filenameToId c g = Some k" by simp
      with assms have "1 \<le> k \<and> k \<le> int (card (dom (filenameToId c)))"
        unfolding idsOk_def by blast
      then show ?thesis unfolding card by simp
    qed
  qed
  show ?thesis
    unfolding idsOk_def m
  proof (intro conjI)
    show "finite (dom ?m)" using fin by simp
    show "inj_on ?m (dom ?m)" by (rule inj)
    show "\<forall>g k. ?m g = Some k \<longrightarrow> 1 \<le> k \<and> k \<le> int (card (dom ?m))" by (rule bound)
  qed
qed

lemma getFilenameId_frame:
  "adjList (snd (getFilenameId c f)) = adjList c"
  "inDegrees (snd (getFilenameId c f)) = inDegrees c"
  "edgeMeta (snd (getFilenameId c f)) = edgeMeta c"
  by (auto simp: getFilenameId_def Let_def split: option.splits)

lemma getFilenameId_lookup:
  "filenameToId (snd (getFilenameId c f)) f = Some (fst (getFilenameId c f))"
  by (auto simp: getFilenameId_def Let_def split: option.splits)

lemma getFilenameId_ran:
  "ran (filenameToId (snd (getFilenameId c f))) \<subseteq> insert (fst (getFilenameId c f)) (ran (filenameToId c))"
  by (auto simp: getFilenameId_def Let_def ran_def split: option.splits if_splits)

lemma getFilenameId_ran_mono:
  "ran (filenameToId c) \<subseteq> ran (filenameToId (snd (getFilenameId c f)))"
proof
  fix n assume "n \<in> ran (filenameToId c)"
  then obtain g where "filenameToId c g = Some n" by (auto simp: ran_def)
  then have "filenameToId (snd (getFilenameId c f)) g = Some n" by (rule getFilenameId_stable)
  then show "n \<in> ran (filenameToId (snd (getFilenameId c f)))" by (rule ranI)
qed

lemma getFilenameId_known_pair:
  "filenameToId c f = Some n \<Longrightarrow> fst (getFilenameId c f) = n \<and> snd (getFilenameId c f) = c"
  by (simp add: getFilenameId_def)

section \<open>The graph built by the visit function\<close>

lemma ensureVertex_frame:
  "filenameToId (ensureVertex v cc) = filenameToId cc"
  "idToFilename (ensureVertex v cc) = idToFilename cc"
  "edgeMeta (ensureVertex v cc) = edgeMeta cc"
  by (simp_all add: ensureVertex_def split: option.split)

lemma ensureVertex_dom_adjList:
  "dom (adjList (ensureVertex v cc)) = insert v (dom (adjList cc))"
  by (auto simp: ensureVertex_def split: option.splits)

lemma ensureVertex_dom_inDegrees:
  "dom (inDegrees cc) = dom (adjList cc) \<Longrightarrow>
     dom (inDegrees (ensureVertex v cc)) = insert v (dom (inDegrees cc))"
  by (auto simp: ensureVertex_def split: option.splits)

lemma ensureVertex_neighbours:
  "neighbours (adjList (ensureVertex v cc)) u = neighbours (adjList cc) u"
  by (simp add: ensureVertex_def neighbours_def split: option.split)

lemma ensureVertex_degree:
  "dom (inDegrees cc) = dom (adjList cc) \<Longrightarrow>
     degree (inDegrees (ensureVertex v cc)) u = degree (inDegrees cc) u"
proof (cases "adjList cc v")
  case None
  assume "dom (inDegrees cc) = dom (adjList cc)"
  with None have "inDegrees cc v = None" by (metis domIff)
  with None show ?thesis by (simp add: ensureVertex_def degree_def)
next
  case (Some a)
  then show ?thesis by (simp add: ensureVertex_def)
qed

lemma addEdge_frame:
  "filenameToId (addEdge a b i cc) = filenameToId cc"
  "idToFilename (addEdge a b i cc) = idToFilename cc"
  by (simp_all add: addEdge_def Let_def ensureVertex_frame split: option.split)

lemma addEdge_adjList:
  "adjList (addEdge a b i cc) =
     (adjList (ensureVertex b (ensureVertex a cc)))
       (a \<mapsto> neighbours (adjList (ensureVertex b (ensureVertex a cc))) a @ [b])"
  by (simp add: addEdge_def Let_def split: option.split)

lemma addEdge_inDegrees:
  "inDegrees (addEdge a b i cc) =
     (inDegrees (ensureVertex b (ensureVertex a cc)))
       (b \<mapsto> degree (inDegrees (ensureVertex b (ensureVertex a cc))) b + 1)"
  by (simp add: addEdge_def Let_def split: option.split)

lemma addEdge_edgeMeta:
  "edgeMeta (addEdge a b i cc) =
     (case edgeMeta cc a of None \<Rightarrow> (edgeMeta cc)(a \<mapsto> Map.empty(b \<mapsto> i)) | Some m \<Rightarrow> edgeMeta cc)"
  by (simp add: addEdge_def Let_def ensureVertex_frame split: option.split)

lemma addEdge_dom_adjList:
  "dom (adjList (addEdge a b i cc)) = insert a (insert b (dom (adjList cc)))"
  by (auto simp: addEdge_adjList ensureVertex_dom_adjList)

lemma addEdge_dom_inDegrees:
  assumes "dom (inDegrees cc) = dom (adjList cc)"
  shows "dom (inDegrees (addEdge a b i cc)) = insert a (insert b (dom (inDegrees cc)))"
proof -
  have 1: "dom (inDegrees (ensureVertex a cc)) = insert a (dom (inDegrees cc))"
    by (rule ensureVertex_dom_inDegrees [OF assms])
  have "dom (inDegrees (ensureVertex a cc)) = dom (adjList (ensureVertex a cc))"
    by (simp add: 1 ensureVertex_dom_adjList assms)
  then have 2: "dom (inDegrees (ensureVertex b (ensureVertex a cc))) = insert b (insert a (dom (inDegrees cc)))"
    by (simp add: ensureVertex_dom_inDegrees 1)
  show ?thesis unfolding addEdge_inDegrees by (simp add: 2 insert_commute)
qed

lemma addEdge_neighbours:
  "neighbours (adjList (addEdge a b i cc)) u =
     neighbours (adjList cc) u @ (if u = a then [b] else [])"
  by (simp add: addEdge_adjList ensureVertex_neighbours neighbours_def [of "_(_ \<mapsto> _)"])
     (simp add: neighbours_def ensureVertex_neighbours [unfolded neighbours_def])

lemma addEdge_degree:
  assumes "dom (inDegrees cc) = dom (adjList cc)"
  shows "degree (inDegrees (addEdge a b i cc)) u = degree (inDegrees cc) u + (if u = b then 1 else 0)"
proof -
  have s1: "dom (inDegrees (ensureVertex a cc)) = dom (adjList (ensureVertex a cc))"
    by (simp add: ensureVertex_dom_inDegrees [OF assms] ensureVertex_dom_adjList assms)
  have d: "degree (inDegrees (ensureVertex b (ensureVertex a cc))) w = degree (inDegrees cc) w" for w
    by (simp add: ensureVertex_degree [OF s1] ensureVertex_degree [OF assms])
  show ?thesis
  proof (cases "u = b")
    case True
    then show ?thesis by (simp add: addEdge_inDegrees d) (simp add: degree_def)
  next
    case False
    have "degree (inDegrees (addEdge a b i cc)) u = degree (inDegrees (ensureVertex b (ensureVertex a cc))) u"
      using False by (simp add: addEdge_inDegrees degree_def)
    with False show ?thesis by (simp add: d)
  qed
qed

lemma visitAll_append: "visitAll env (xs @ ys) cc = visitAll env ys (visitAll env xs cc)"
  by (induction xs arbitrary: cc) auto

lemma insertions_append: "insertions env (xs @ ys) = insertions env xs @ insertions env ys"
  by (induction xs) (auto split: sum.splits)

lemma idsOk_cong: "filenameToId c' = filenameToId c \<Longrightarrow> idsOk c' = idsOk c"
  by (simp add: idsOk_def)

lemma getFilenameId_ran_eq:
  "ran (filenameToId (snd (getFilenameId c f))) = insert (fst (getFilenameId c f)) (ran (filenameToId c))"
proof
  show "ran (filenameToId (snd (getFilenameId c f))) \<subseteq> insert (fst (getFilenameId c f)) (ran (filenameToId c))"
    by (rule getFilenameId_ran)
  have "fst (getFilenameId c f) \<in> ran (filenameToId (snd (getFilenameId c f)))"
    using getFilenameId_lookup by (rule ranI)
  with getFilenameId_ran_mono [of c f]
  show "insert (fst (getFilenameId c f)) (ran (filenameToId c)) \<subseteq> ran (filenameToId (snd (getFilenameId c f)))"
    by blast
qed

lemma visit_resolved:
  assumes "getRelPath env filename = Inr p" and "getRelPath env (Path i) = Inr q"
  shows "visit env filename i cc =
           addEdge (fst (getFilenameId cc p)) (fst (getFilenameId (snd (getFilenameId cc p)) q)) i
             (assignIds [p, q] cc)"
  using assms by (simp add: visit_def split_beta Let_def)

lemma graphInv_init: "graphInv env [] circularImportCtx"
  by (simp add: graphInv_def idsOk_init) (simp add: circularImportCtx_def neighbours_def)

lemma graphInv_skip:
  assumes "graphInv env evs cc" and "isl (getRelPath env (fst e)) \<or> isl (getRelPath env (Path (snd e)))"
  shows "graphInv env (evs @ [e]) (visit env (fst e) (snd e) cc)"
proof -
  have v: "visit env (fst e) (snd e) cc = cc"
    using assms(2) by (auto simp: visit_def split: sum.splits)
  have i: "insertions env (evs @ [e]) = insertions env evs"
    using assms(2) by (auto simp: insertions_append split: sum.splits)
  show ?thesis unfolding v i graphInv_def using assms(1) unfolding graphInv_def .
qed

lemma graphInv_edge:
  assumes inv: "graphInv env evs cc"
    and p: "getRelPath env (fst e) = Inr p" and q: "getRelPath env (Path (snd e)) = Inr q"
  shows "graphInv env (evs @ [e]) (visit env (fst e) (snd e) cc)"
proof -
  let ?c1 = "snd (getFilenameId cc p)"
  let ?a = "fst (getFilenameId cc p)"
  let ?c2 = "snd (getFilenameId ?c1 q)"
  let ?b = "fst (getFilenameId ?c1 q)"
  let ?c' = "addEdge ?a ?b (snd e) ?c2"
  let ?ins = "insertions env evs"
  have v: "visit env (fst e) (snd e) cc = ?c'"
    using visit_resolved [OF p q] by simp
  have ins: "insertions env (evs @ [e]) = ?ins @ [(p, q)]"
    using p q by (simp add: insertions_append)
  have ok0: "idsOk cc" and sync0: "dom (inDegrees cc) = dom (adjList cc)"
    and ran0: "dom (adjList cc) = ran (filenameToId cc)"
    and nb0: "\<And>v. set (neighbours (adjList cc) v) \<subseteq> dom (adjList cc)"
    and paths0: "\<And>x. x \<in> set ?ins \<Longrightarrow> fst x \<in> dom (filenameToId cc) \<and> snd x \<in> dom (filenameToId cc)"
    and deg0: "\<And>g v. filenameToId cc g = Some v \<Longrightarrow> degree (inDegrees cc) v = targeting g ?ins"
    using inv unfolding graphInv_def by blast+
  have ok2: "idsOk ?c2" by (intro idsOk_getFilenameId ok0)
  have f': "filenameToId ?c' = filenameToId ?c2" by (simp add: addEdge_frame)
  have adj2: "adjList ?c2 = adjList cc" and in2: "inDegrees ?c2 = inDegrees cc"
    by (simp_all add: getFilenameId_frame)
  have sync2: "dom (inDegrees ?c2) = dom (adjList ?c2)" by (simp add: adj2 in2 sync0)
  have fa: "filenameToId ?c2 p = Some ?a"
    by (intro getFilenameId_stable getFilenameId_lookup)
  have fb: "filenameToId ?c2 q = Some ?b" by (rule getFilenameId_lookup)
  have ext: "filenameToId cc g = Some n \<Longrightarrow> filenameToId ?c2 g = Some n" for g n
    by (intro getFilenameId_stable)
  have dom2: "dom (filenameToId ?c2) = insert q (insert p (dom (filenameToId cc)))"
    by (simp add: getFilenameId_dom)
  have ran2: "ran (filenameToId ?c2) = insert ?b (insert ?a (ran (filenameToId cc)))"
    by (simp add: getFilenameId_ran_eq)
  have inj2: "inj_on (filenameToId ?c2) (dom (filenameToId ?c2))"
    using ok2 by (simp add: idsOk_def)
  have c1: "idsOk ?c'" using ok2 by (simp add: idsOk_cong [OF f'])
  have c2: "dom (inDegrees ?c') = dom (adjList ?c')"
    by (simp add: addEdge_dom_inDegrees [OF sync2] addEdge_dom_adjList sync2)
  have c3: "dom (adjList ?c') = ran (filenameToId ?c')"
    by (simp add: addEdge_dom_adjList f' ran2 adj2 ran0 insert_commute)
  have c4: "set (neighbours (adjList ?c') v) \<subseteq> dom (adjList ?c')" for v
    using nb0 [of v] by (auto simp: addEdge_neighbours addEdge_dom_adjList adj2)
  have c5: "fst x \<in> dom (filenameToId ?c') \<and> snd x \<in> dom (filenameToId ?c')"
    if "x \<in> set (?ins @ [(p, q)])" for x
  proof (cases "x = (p, q)")
    case True
    then show ?thesis by (simp add: f' dom2)
  next
    case False
    with that have "x \<in> set ?ins" by simp
    from paths0 [OF this] show ?thesis by (simp add: f' dom2)
  qed
  have c6: "degree (inDegrees ?c') v = targeting g (?ins @ [(p, q)])"
    if gv: "filenameToId ?c' g = Some v" for g v
  proof -
    have gv2: "filenameToId ?c2 g = Some v" using gv by (simp add: f')
    have vb: "v = ?b \<longleftrightarrow> g = q"
    proof
      assume "v = ?b"
      with gv2 fb have "filenameToId ?c2 g = filenameToId ?c2 q" by simp
      moreover have "g \<in> dom (filenameToId ?c2)" "q \<in> dom (filenameToId ?c2)"
        using gv2 fb by blast+
      ultimately show "g = q" by (rule inj_onD [OF inj2])
    next
      assume "g = q" with gv2 fb show "v = ?b" by simp
    qed
    have old: "degree (inDegrees cc) v = targeting g ?ins"
    proof (cases "filenameToId cc g")
      case (Some n)
      from ext [OF Some] gv2 have "n = v" by simp
      with Some deg0 show ?thesis by blast
    next
      case None
      have "v \<notin> ran (filenameToId cc)"
      proof
        assume "v \<in> ran (filenameToId cc)"
        then obtain h where h: "filenameToId cc h = Some v" by (auto simp: ran_def)
        from ext [OF h] gv2 have "filenameToId ?c2 h = filenameToId ?c2 g" by simp
        moreover have "h \<in> dom (filenameToId ?c2)" "g \<in> dom (filenameToId ?c2)"
          using ext [OF h] gv2 by blast+
        ultimately have "h = g" by (rule inj_onD [OF inj2])
        with h None show False by simp
      qed
      then have "inDegrees cc v = None" using sync0 ran0 by (metis domIff)
      then have d0: "degree (inDegrees cc) v = 0" by (simp add: degree_def)
      have "\<forall>x \<in> set ?ins. snd x \<noteq> g"
        using paths0 None by (metis domIff)
      then have "filter (\<lambda>x. snd x = g) ?ins = []" by (simp add: filter_empty_conv)
      with d0 show ?thesis by (simp add: targeting_def)
    qed
    have "degree (inDegrees ?c') v = degree (inDegrees cc) v + (if v = ?b then 1 else 0)"
      by (simp add: addEdge_degree [OF sync2] in2)
    also have "\<dots> = targeting g ?ins + (if g = q then 1 else 0)"
      by (simp add: old vb)
    also have "\<dots> = targeting g (?ins @ [(p, q)])"
      by (simp add: targeting_def)
    finally show ?thesis .
  qed
  show ?thesis
    unfolding graphInv_def v ins
    using c1 c2 c3 c4 c5 c6 by blast
qed

lemma graphInv_visit:
  assumes "graphInv env evs cc"
  shows "graphInv env (evs @ [e]) (visit env (fst e) (snd e) cc)"
proof (cases "isl (getRelPath env (fst e)) \<or> isl (getRelPath env (Path (snd e)))")
  case True
  with assms show ?thesis by (rule graphInv_skip)
next
  case False
  then obtain p q where "getRelPath env (fst e) = Inr p" "getRelPath env (Path (snd e)) = Inr q"
    by (metis sum.collapse(2))
  with assms show ?thesis by (rule graphInv_edge)
qed

lemma graphInv_visitAll: "graphInv env evs (visitAll env evs circularImportCtx)"
proof (induction evs rule: rev_induct)
  case Nil
  show ?case by (simp add: graphInv_init)
next
  case (snoc e evs)
  from graphInv_visit [OF snoc, of e] show ?case by (simp add: visitAll_append)
qed

text \<open>The vertex ids of a run are those of the calls of \<open>getFilenameId\<close> it makes:
  importer, then importee, for each edge inserted.\<close>

lemma getFilenameId_cong:
  "filenameToId c1 = filenameToId c2 \<Longrightarrow>
     fst (getFilenameId c1 f) = fst (getFilenameId c2 f)
     \<and> filenameToId (snd (getFilenameId c1 f)) = filenameToId (snd (getFilenameId c2 f))"
  by (cases "filenameToId c2 f") (simp_all add: getFilenameId_def Let_def)

lemma assignIds_cong:
  "filenameToId c1 = filenameToId c2 \<Longrightarrow>
     filenameToId (assignIds fs c1) = filenameToId (assignIds fs c2)"
proof (induction fs arbitrary: c1 c2)
  case Nil
  then show ?case by simp
next
  case (Cons f fs)
  from getFilenameId_cong [OF Cons.prems, of f]
  have "filenameToId (snd (getFilenameId c1 f)) = filenameToId (snd (getFilenameId c2 f))" by simp
  from Cons.IH [OF this] show ?case by simp
qed

lemma visitAll_filenameToId:
  "filenameToId (visitAll env evs c)
     = filenameToId (assignIds (concat (map (\<lambda>e. [fst e, snd e]) (insertions env evs))) c)"
proof (induction evs arbitrary: c)
  case Nil
  show ?case by simp
next
  case (Cons e evs)
  show ?case
  proof (cases "isl (getRelPath env (fst e)) \<or> isl (getRelPath env (Path (snd e)))")
    case True
    then have v: "visit env (fst e) (snd e) c = c" by (auto simp: visit_def split: sum.splits)
    from True have "insertions env (e # evs) = insertions env evs" by (auto split: sum.splits)
    with v Cons.IH [of c] show ?thesis by simp
  next
    case False
    then obtain p q where pq: "getRelPath env (fst e) = Inr p" "getRelPath env (Path (snd e)) = Inr q"
      by (metis sum.collapse(2))
    let ?rest = "concat (map (\<lambda>e. [fst e, snd e]) (insertions env evs))"
    have "filenameToId (visit env (fst e) (snd e) c) = filenameToId (assignIds [p, q] c)"
      unfolding visit_resolved [OF pq] by (simp add: addEdge_frame)
    then have "filenameToId (assignIds ?rest (visit env (fst e) (snd e) c))
        = filenameToId (assignIds ?rest (assignIds [p, q] c))"
      by (rule assignIds_cong)
    with Cons.IH [of "visit env (fst e) (snd e) c"] pq show ?thesis by simp
  qed
qed

lemma getFilenameId_metaOf: "metaOf (snd (getFilenameId c f)) a b = metaOf c a b"
  by (simp add: metaOf_def getFilenameId_frame)

lemma addEdge_keeps_meta:
  assumes "metaOf cc u v = Some i0"
  shows "metaOf (addEdge a b i cc) u v = Some i0"
proof (cases "edgeMeta cc a")
  case None
  with assms have "u \<noteq> a" by (auto simp: metaOf_def)
  with assms None show ?thesis by (simp add: metaOf_def addEdge_edgeMeta)
next
  case (Some m)
  with assms show ?thesis by (simp add: metaOf_def addEdge_edgeMeta)
qed

lemma visit_keeps_meta:
  assumes "metaOf cc u v = Some i0"
  shows "metaOf (visit env filename i cc) u v = Some i0"
proof (cases "isl (getRelPath env filename) \<or> isl (getRelPath env (Path i))")
  case True
  then have "visit env filename i cc = cc" by (auto simp: visit_def split: sum.splits)
  with assms show ?thesis by simp
next
  case False
  then obtain p q where "getRelPath env filename = Inr p" "getRelPath env (Path i) = Inr q"
    by (metis sum.collapse(2))
  from visit_resolved [OF this] show ?thesis
    by (simp add: addEdge_keeps_meta getFilenameId_metaOf assms)
qed

section \<open>Termination of the finalize function\<close>

lemma degree_upd: "degree (m(v \<mapsto> d)) u = (if u = v then d else degree m u)"
  by (simp add: degree_def)

lemma positive_decrement:
  "positive (inDeg(v \<mapsto> degree inDeg v - 1)) \<subseteq> positive inDeg"
  by (auto simp: positive_def degree_upd)

lemma positive_hit_zero:
  assumes "degree inDeg v - 1 = 0"
  shows "positive (inDeg(v \<mapsto> degree inDeg v - 1)) \<subset> positive inDeg"
proof -
  have "v \<in> positive inDeg" using assms by (simp add: positive_def)
  moreover have "v \<notin> positive (inDeg(v \<mapsto> degree inDeg v - 1))"
    using assms by (simp add: positive_def degree_upd)
  ultimately show ?thesis using positive_decrement [of inDeg v] by blast
qed

lemma relaxEdges_shrinks:
  "relaxEdges sources vs (inDeg, count, ns) = (inDeg', count', ns') \<Longrightarrow>
     positive inDeg' \<subseteq> positive inDeg \<and> (ns' = ns \<or> positive inDeg' \<subset> positive inDeg)"
proof (induction vs arbitrary: inDeg count ns)
  case Nil
  then show ?case by simp
next
  case (Cons v vs)
  let ?d = "inDeg(v \<mapsto> degree inDeg v - 1)"
  show ?case
  proof (cases "degree inDeg v - 1 = 0")
    case True
    with Cons.prems have "relaxEdges sources vs (?d, count + 1, sources @ [v]) = (inDeg', count', ns')"
      by (simp add: Let_def degree_upd)
    from Cons.IH [OF this] positive_hit_zero [OF True] show ?thesis by blast
  next
    case False
    with Cons.prems have "relaxEdges sources vs (?d, count, ns) = (inDeg', count', ns')"
      by (simp add: Let_def degree_upd)
    from Cons.IH [OF this] positive_decrement [of inDeg v] show ?thesis by blast
  qed
qed

lemma processSources_shrinks:
  "processSources adj sources todo (inDeg, count, ns) = (inDeg', count', ns') \<Longrightarrow>
     positive inDeg' \<subseteq> positive inDeg \<and> (ns' = ns \<or> positive inDeg' \<subset> positive inDeg)"
proof (induction todo arbitrary: inDeg count ns)
  case Nil
  then show ?case by simp
next
  case (Cons s todo)
  obtain d1 c1 n1 where r: "relaxEdges sources (neighbours adj s) (inDeg, count, ns) = (d1, c1, n1)"
    by (metis prod_cases3)
  with Cons.prems have "processSources adj sources todo (d1, c1, n1) = (inDeg', count', ns')"
    by simp
  from Cons.IH [OF this] relaxEdges_shrinks [OF r] show ?case by blast
qed

lemma drainSources_terminates:
  assumes "finite (positive inDeg)"
  shows "\<exists>r. drainSources adj sources inDeg count = Some r"
  using assms
proof (induction "card (positive inDeg)" arbitrary: sources inDeg count rule: less_induct)
  case less
  show ?case
  proof (cases "sources = []")
    case True
    then show ?thesis by (simp add: drainSources.simps)
  next
    case False
    obtain d1 c1 n1 where r: "processSources adj sources sources (inDeg, count, []) = (d1, c1, n1)"
      by (metis prod_cases3)
    have step: "drainSources adj sources inDeg count = drainSources adj n1 d1 c1"
      using False r by (subst drainSources.simps) simp
    show ?thesis
    proof (cases "n1 = []")
      case True
      then show ?thesis unfolding step by (simp add: drainSources.simps)
    next
      case False
      with processSources_shrinks [OF r] have sub: "positive d1 \<subset> positive inDeg" by blast
      then have "card (positive d1) < card (positive inDeg)"
        using less.prems by (simp add: psubset_card_mono)
      moreover have "finite (positive d1)"
        using sub less.prems by (meson finite_subset psubset_imp_subset)
      ultimately show ?thesis unfolding step by (rule less.hyps)
    qed
  qed
qed

lemma dfs_terminates:
  assumes fin: "finite V" and closed: "\<And>v. set (neighbours adj v) \<subseteq> V"
  shows "cur \<in> V \<Longrightarrow>
     \<exists>r vis' gvis'. dfs cur adj path (vis, gvis) = Some (r, vis', gvis') \<and> gvis \<subseteq> gvis'"
proof (induction "card (V - gvis)" arbitrary: cur path vis gvis rule: less_induct)
  case less
  show ?case
  proof (cases "(if cur \<in> vis then cycleFrom cur path else None)")
    case (Some c)
    then show ?thesis by (subst dfs.simps) simp
  next
    case None
    show ?thesis
    proof (cases "cur \<in> gvis")
      case True
      with None show ?thesis by (subst dfs.simps) simp
    next
      case False
      let ?f = "\<lambda>v. dfs v adj (path @ [cur])"
      have step: "dfs cur adj path (vis, gvis)
                  = firstCycle ?f (neighbours adj cur) (insert cur vis, insert cur gvis)"
        using None False by (subst dfs.simps) simp
      have smaller: "card (V - g) < card (V - gvis)" if "insert cur gvis \<subseteq> g" for g
      proof -
        have "V - g \<subset> V - gvis" using that less.prems False by blast
        then show ?thesis using fin by (simp add: psubset_card_mono)
      qed
      have inner: "set xs \<subseteq> V \<Longrightarrow> insert cur gvis \<subseteq> g1 \<Longrightarrow>
          \<exists>r vis' gvis'. firstCycle ?f xs (v1, g1) = Some (r, vis', gvis') \<and> g1 \<subseteq> gvis'" for xs v1 g1
      proof (induction xs arbitrary: v1 g1)
        case Nil
        then show ?case by simp
      next
        case (Cons x xs)
        from Cons.prems have xV: "x \<in> V" by simp
        from less.hyps [OF smaller [OF Cons.prems(2)] xV, of "path @ [cur]" v1]
        obtain r v2 g2 where d: "dfs x adj (path @ [cur]) (v1, g1) = Some (r, v2, g2)" and g: "g1 \<subseteq> g2"
          by blast
        show ?case
        proof (cases r)
          case (Some c)
          with d g show ?thesis by simp
        next
          case None
          from Cons.prems g have "set xs \<subseteq> V" "insert cur gvis \<subseteq> g2" by auto
          from Cons.IH [OF this, of v2] obtain r' v3 g3
            where "firstCycle ?f xs (v2, g2) = Some (r', v3, g3)" and "g2 \<subseteq> g3" by blast
          with d g None show ?thesis by auto
        qed
      qed
      have "\<exists>r vis' gvis'. firstCycle ?f (neighbours adj cur) (insert cur vis, insert cur gvis)
                = Some (r, vis', gvis') \<and> insert cur gvis \<subseteq> gvis'"
        by (rule inner) (simp_all add: closed)
      then show ?thesis unfolding step by blast
    qed
  qed
qed

lemma searchCycle_terminates:
  assumes fin: "finite V" and closed: "\<And>v. set (neighbours adj v) \<subseteq> V"
  shows "set ks \<subseteq> V \<Longrightarrow> \<exists>r. searchCycle adj ks gvis = Some r"
proof (induction ks arbitrary: gvis)
  case Nil
  then show ?case by simp
next
  case (Cons k ks)
  then have "k \<in> V" by simp
  from dfs_terminates [OF fin closed this, of "[]" "{}" gvis]
  obtain r v2 g2 where d: "dfs k adj [] ({}, gvis) = Some (r, v2, g2)" by blast
  show ?case
  proof (cases r)
    case None
    from Cons have "\<exists>r. searchCycle adj ks g2 = Some r" by simp
    with d None show ?thesis by simp
  next
    case (Some c)
    with d show ?thesis by simp
  qed
qed

lemma positive_subset_dom: "positive m \<subseteq> dom m"
  by (auto simp: positive_def degree_def split: option.splits)

lemma graphInv_finite:
  assumes "graphInv env evs cc"
  shows "finite (dom (adjList cc))" and "finite (positive (inDegrees cc))"
proof -
  from assms have "finite (dom (filenameToId cc))" by (simp add: graphInv_def idsOk_def)
  then have "finite (ran (filenameToId cc))" by (rule finite_ran)
  moreover from assms have "dom (adjList cc) = ran (filenameToId cc)"
    unfolding graphInv_def by blast
  ultimately show a: "finite (dom (adjList cc))" by simp
  from assms have "dom (inDegrees cc) = dom (adjList cc)" unfolding graphInv_def by blast
  with a positive_subset_dom [of "inDegrees cc"] show "finite (positive (inDegrees cc))"
    by (metis finite_subset)
qed

lemma graphInv_closed:
  "graphInv env evs cc \<Longrightarrow> set (neighbours (adjList cc) v) \<subseteq> dom (adjList cc)"
  unfolding graphInv_def by blast

lemma topologicalPass_terminates:
  assumes "finite (positive inDeg)"
  shows "\<exists>r. topologicalPass ks adj inDeg = Some r"
proof -
  obtain c s where cs: "collectSources inDeg ks (0, []) = (c, s)" by (metis surj_pair)
  from drainSources_terminates [OF assms, of adj s c] show ?thesis
    by (simp add: topologicalPass_def cs)
qed

lemma findCycleVertices_terminates:
  assumes "finite V" and "\<And>v. set (neighbours adj v) \<subseteq> V"
  shows "\<exists>r. findCycleVertices ks adj = Some r"
proof -
  have "finite (V \<union> set ks)" using assms(1) by simp
  moreover have "set (neighbours adj v) \<subseteq> V \<union> set ks" for v using assms(2) [of v] by blast
  moreover have "set ks \<subseteq> V \<union> set ks" by blast
  ultimately show ?thesis unfolding findCycleVertices_def by (rule searchCycle_terminates)
qed

lemma lookForCycle_terminates:
  assumes "finite (positive inDeg)" and "finite V" and "\<And>v. set (neighbours adj v) \<subseteq> V"
  shows "\<exists>r. lookForCycle ks ks' adj inDeg = Some r"
proof -
  from topologicalPass_terminates [OF assms(1)] obtain d c
    where t: "topologicalPass ks adj inDeg = Some (d, c)" by fastforce
  from findCycleVertices_terminates [OF assms(2,3)] obtain r
    where f: "findCycleVertices ks' adj = Some r" by blast
  show ?thesis by (cases r) (simp_all add: lookForCycle_def t f)
qed

lemma finalize_Some:
  assumes "lookForCycle ks ks' (adjList cc) (inDegrees cc) = Some r"
  shows "\<exists>x. finalize env ks ks' cc = Some x"
proof -
  obtain res d where r: "r = (res, d)" by (cases r)
  show ?thesis
  proof (cases res)
    case (Inl p)
    then show ?thesis by (simp add: finalize_def assms r)
  next
    case (Inr b)
    obtain vs cycle where b: "b = (vs, cycle)" by (cases b)
    obtain outs p where "reportEdges env (cc\<lparr>inDegrees := d\<rparr>) vs (enumerate 0 vs) = (outs, p)"
      by (metis surj_pair)
    then show ?thesis by (simp add: finalize_def Let_def assms r Inr b)
  qed
qed

lemma finalize_frame:
  assumes "finalize env ks ks' cc = Some r"
  shows "snd (snd r) = cc\<lparr>inDegrees := inDegrees (snd (snd r))\<rparr>"
proof -
  from assms obtain res d where l: "lookForCycle ks ks' (adjList cc) (inDegrees cc) = Some (res, d)"
    by (auto simp: finalize_def split: option.splits)
  have "snd (snd r) = cc\<lparr>inDegrees := d\<rparr>"
  proof (cases res)
    case (Inl p)
    with assms l show ?thesis by (auto simp: finalize_def Let_def)
  next
    case (Inr b)
    obtain vs cycle where b: "b = (vs, cycle)" by (cases b)
    obtain outs p where "reportEdges env (cc\<lparr>inDegrees := d\<rparr>) vs (enumerate 0 vs) = (outs, p)"
      by (metis surj_pair)
    with assms l Inr b show ?thesis by (cases cycle) (auto simp: finalize_def Let_def)
  qed
  then show ?thesis by simp
qed

lemma finalize_of_panic:
  assumes "map_option fst (lookForCycle ks ks' (adjList cc) (inDegrees cc)) = Some (Inl p)"
  shows "map_option fst (finalize env ks ks' cc) = Some []
       \<and> map_option (fst \<circ> snd) (finalize env ks ks' cc) = Some (Some p)"
proof -
  from assms obtain d where "lookForCycle ks ks' (adjList cc) (inDegrees cc) = Some (Inl p, d)"
    by auto
  then show ?thesis by (simp add: finalize_def)
qed

lemma finalize_of_no_cycle:
  assumes "map_option fst (lookForCycle ks ks' (adjList cc) (inDegrees cc)) = Some (Inr (vs, False))"
  shows "map_option fst (finalize env ks ks' cc) = Some []
       \<and> map_option (fst \<circ> snd) (finalize env ks ks' cc) = Some None"
proof -
  from assms obtain d where "lookForCycle ks ks' (adjList cc) (inDegrees cc) = Some (Inr (vs, False), d)"
    by auto
  then show ?thesis by (simp add: finalize_def)
qed

section \<open>What the cycle search returns\<close>

lemma isPath_suffix: "isPath adj (xs @ ys) \<Longrightarrow> isPath adj ys"
proof (induction xs)
  case Nil
  then show ?case by simp
next
  case (Cons x xs)
  then show ?case by (cases "xs @ ys") auto
qed

lemma isPath_snoc:
  "isPath adj (xs @ [u]) \<Longrightarrow> v \<in> set (neighbours adj u) \<Longrightarrow> isPath adj ((xs @ [u]) @ [v])"
proof (induction xs)
  case Nil
  then show ?case by simp
next
  case (Cons x xs)
  then show ?case by (cases xs) auto
qed

lemma cycleFrom_Some:
  "cycleFrom cur path = Some vs \<Longrightarrow> \<exists>pre. path = pre @ vs \<and> vs \<noteq> [] \<and> hd vs = cur"
proof (induction path)
  case Nil
  then show ?case by simp
next
  case (Cons x xs)
  show ?case
  proof (cases "x = cur")
    case True
    with Cons.prems have "vs = x # xs" by simp
    with True show ?thesis by auto
  next
    case False
    with Cons.prems have "cycleFrom cur xs = Some vs" by simp
    from Cons.IH [OF this] obtain pre where "xs = pre @ vs" "vs \<noteq> []" "hd vs = cur" by blast
    then have "x # xs = (x # pre) @ vs" by simp
    with \<open>vs \<noteq> []\<close> \<open>hd vs = cur\<close> show ?thesis by blast
  qed
qed

lemma firstCycle_result:
  assumes "\<And>v s y. v \<in> set xs \<Longrightarrow> f v s = Some y \<Longrightarrow> Q y"
    and "firstCycle f xs st = Some y" and "fst y \<noteq> None"
  shows "Q y"
  using assms
proof (induction xs arbitrary: st)
  case Nil
  then show ?case by auto
next
  case (Cons x xs)
  from Cons.prems(2) obtain r where r: "f x st = Some r"
    and rest: "(case fst r of Some c \<Rightarrow> Some r | None \<Rightarrow> firstCycle f xs (snd r)) = Some y"
    by (auto simp: bind_eq_Some_conv)
  show ?case
  proof (cases "fst r")
    case None
    with rest have fc: "firstCycle f xs (snd r) = Some y" by simp
    show ?thesis
    proof (rule Cons.IH [OF _ fc Cons.prems(3)])
      fix v s z assume "v \<in> set xs" and "f v s = Some z"
      then show "Q z" using Cons.prems(1) [of v s z] by simp
    qed
  next
    case (Some c)
    with rest have "y = r" by simp
    with r Cons.prems(1) [of x st y] show ?thesis by simp
  qed
qed

lemma dfs_sound_aux:
  assumes "dfs cur adj path st = Some y"
  shows "isPath adj (path @ [cur]) \<longrightarrow> (\<forall>c. fst y = Some c \<longrightarrow> isCycle adj c)"
proof (rule dfs.raw_induct
    [where P = "\<lambda>cur adj path st y. isPath adj (path @ [cur]) \<longrightarrow> (\<forall>c. fst y = Some c \<longrightarrow> isCycle adj c)",
     OF _ assms])
  fix f :: "int \<Rightarrow> (int \<rightharpoonup> int list) \<Rightarrow> int list \<Rightarrow> int set \<times> int set
              \<Rightarrow> (int list option \<times> int set \<times> int set) option"
  fix cur adj path st y
  assume IH: "\<And>v adj path st y. f v adj path st = Some y \<Longrightarrow>
      isPath adj (path @ [v]) \<longrightarrow> (\<forall>c. fst y = Some c \<longrightarrow> isCycle adj c)"
  assume body: "(case if cur \<in> fst st then cycleFrom cur path else None of
      None \<Rightarrow>
        if cur \<in> snd st then Some (None, st)
        else firstCycle (\<lambda>v. f v adj (path @ [cur])) (neighbours adj cur)
               (insert cur (fst st), insert cur (snd st))
    | Some vs \<Rightarrow> Some (Some vs, st)) = Some y"
  show "isPath adj (path @ [cur]) \<longrightarrow> (\<forall>c. fst y = Some c \<longrightarrow> isCycle adj c)"
  proof (intro impI allI)
    fix c assume path: "isPath adj (path @ [cur])" and c: "fst y = Some c"
    show "isCycle adj c"
    proof (cases "if cur \<in> fst st then cycleFrom cur path else None")
      case (Some vs)
      with body c have "c = vs" by auto
      from Some have "cycleFrom cur path = Some vs" by (simp split: if_splits)
      from cycleFrom_Some [OF this] obtain pre where p: "path = pre @ vs" "vs \<noteq> []" "hd vs = cur"
        by blast
      from path p have "isPath adj (pre @ (vs @ [hd vs]))" by simp
      then have "isPath adj (vs @ [hd vs])" by (rule isPath_suffix)
      with p \<open>c = vs\<close> show ?thesis by (simp add: isCycle_def)
    next
      case None
      show ?thesis
      proof (cases "cur \<in> snd st")
        case True
        with None body c show ?thesis by auto
      next
        case False
        with None body
        have fc: "firstCycle (\<lambda>v. f v adj (path @ [cur])) (neighbours adj cur)
                    (insert cur (fst st), insert cur (snd st)) = Some y"
          by simp
        have "\<forall>c. fst y = Some c \<longrightarrow> isCycle adj c"
        proof (rule firstCycle_result [OF _ fc])
          fix v s z
          assume v: "v \<in> set (neighbours adj cur)" and z: "f v adj (path @ [cur]) s = Some z"
          from path v have "isPath adj ((path @ [cur]) @ [v])" by (rule isPath_snoc)
          with IH [OF z] show "\<forall>c. fst z = Some c \<longrightarrow> isCycle adj c" by blast
        next
          show "fst y \<noteq> None" using c by simp
        qed
        with c show ?thesis by blast
      qed
    qed
  qed
qed

lemma dfs_sound:
  "dfs cur adj path st = Some y \<Longrightarrow> isPath adj (path @ [cur]) \<Longrightarrow> fst y = Some c \<Longrightarrow> isCycle adj c"
  using dfs_sound_aux by blast

lemma searchCycle_sound:
  "searchCycle adj ks gvis = Some (Inr c) \<Longrightarrow> isCycle adj c"
proof (induction ks arbitrary: gvis)
  case Nil
  then show ?case by simp
next
  case (Cons k ks)
  from Cons.prems obtain r where r: "dfs k adj [] ({}, gvis) = Some r"
    by (auto split: option.splits)
  show ?case
  proof (cases "fst r")
    case None
    with Cons.prems r have "searchCycle adj ks (snd (snd r)) = Some (Inr c)" by simp
    then show ?thesis by (rule Cons.IH)
  next
    case (Some c')
    with Cons.prems r have "c' = c" by simp
    with Some have "fst r = Some c" by simp
    with r show ?thesis by (intro dfs_sound [of k adj "[]" "({}, gvis)" r]) simp_all
  qed
qed

lemma isPath_trancl:
  "isPath adj (u # xs @ [w]) \<Longrightarrow> (u, w) \<in> (edges adj)\<^sup>+"
proof (induction xs arbitrary: u)
  case Nil
  then show ?case by (simp add: edges_def r_into_trancl)
next
  case (Cons x xs)
  then have "(u, x) \<in> edges adj" and "isPath adj (x # xs @ [w])" by (simp_all add: edges_def)
  with Cons.IH show ?case by (meson trancl_into_trancl2)
qed

lemma isCycle_hasCycle: "isCycle adj c \<Longrightarrow> hasCycle adj"
proof -
  assume c: "isCycle adj c"
  then have "c @ [hd c] = hd c # tl c @ [hd c]" by (simp add: isCycle_def)
  with c have "isPath adj (hd c # tl c @ [hd c])" by (simp add: isCycle_def)
  then have "(hd c, hd c) \<in> (edges adj)\<^sup>+" by (rule isPath_trancl)
  then show ?thesis by (auto simp: hasCycle_def acyclic_def)
qed

lemma searchCycle_panic: "searchCycle adj ks gvis = Some (Inl p) \<Longrightarrow> p = Unreachable"
proof (induction ks arbitrary: gvis)
  case Nil
  then show ?case by simp
next
  case (Cons k ks)
  from Cons.prems obtain r where r: "dfs k adj [] ({}, gvis) = Some r"
    by (auto split: option.splits)
  show ?case
  proof (cases "fst r")
    case None
    with Cons.prems r have "searchCycle adj ks (snd (snd r)) = Some (Inl p)" by simp
    then show ?thesis by (rule Cons.IH)
  next
    case (Some c)
    with Cons.prems r show ?thesis by simp
  qed
qed

lemma acyclic_search_panics:
  assumes "\<not> hasCycle adj" and "finite V" and "\<And>v. set (neighbours adj v) \<subseteq> V"
  shows "findCycleVertices ks adj = Some (Inl Unreachable)"
proof -
  from findCycleVertices_terminates [OF assms(2,3)] obtain r
    where r: "findCycleVertices ks adj = Some r" by blast
  show ?thesis
  proof (cases r)
    case (Inl p)
    with r have "p = Unreachable" unfolding findCycleVertices_def by (intro searchCycle_panic) simp
    with r Inl show ?thesis by simp
  next
    case (Inr c)
    with r have "isCycle adj c" unfolding findCycleVertices_def by (intro searchCycle_sound) simp
    then have "hasCycle adj" by (rule isCycle_hasCycle)
    with assms(1) show ?thesis by simp
  qed
qed

section \<open>Adjacency lists, in-degrees and the includes of a run\<close>

lemma addEdge_entries:
  assumes fin: "finite (dom (adjList cc))"
  shows "entries (adjList (addEdge a b i cc)) v = entries (adjList cc) v + (if v = b then 1 else 0)"
proof -
  let ?D = "dom (adjList cc)"
  let ?D' = "insert a (insert b ?D)"
  let ?g = "\<lambda>u. count_list (neighbours (adjList cc) u) v"
  have fin': "finite ?D'" using fin by simp
  have zero: "\<forall>u \<in> ?D' - ?D. ?g u = 0"
    by (auto simp: neighbours_def domIff)
  have same: "sum ?g ?D = sum ?g ?D'"
    by (rule sum.mono_neutral_left [OF fin' _ zero]) blast
  have "entries (adjList (addEdge a b i cc)) v
      = (\<Sum>u \<in> ?D'. ?g u + (if u = a then (if v = b then 1 else 0) else 0))"
    unfolding entries_def addEdge_dom_adjList
    by (rule sum.cong) (simp_all add: addEdge_neighbours)
  also have "\<dots> = sum ?g ?D' + (\<Sum>u \<in> ?D'. if u = a then (if v = b then 1 else 0) else 0)"
    by (rule sum.distrib)
  also have "(\<Sum>u \<in> ?D'. if u = a then (if v = b then 1 else 0) else 0) = (if v = b then 1 else (0::nat))"
    using fin' by (simp add: sum.delta')
  finally show ?thesis by (simp add: entries_def same)
qed

lemma visit_entries_degree:
  assumes inv: "graphInv env evs cc"
    and old: "\<And>v. degree (inDegrees cc) v = int (entries (adjList cc) v)"
  shows "degree (inDegrees (visit env filename i cc)) v = int (entries (adjList (visit env filename i cc)) v)"
proof (cases "isl (getRelPath env filename) \<or> isl (getRelPath env (Path i))")
  case True
  then have "visit env filename i cc = cc" by (auto simp: visit_def split: sum.splits)
  with old show ?thesis by simp
next
  case False
  then obtain p q where pq: "getRelPath env filename = Inr p" "getRelPath env (Path i) = Inr q"
    by (metis sum.collapse(2))
  let ?c2 = "assignIds [p, q] cc"
  let ?a = "fst (getFilenameId cc p)"
  let ?b = "fst (getFilenameId (snd (getFilenameId cc p)) q)"
  have v: "visit env filename i cc = addEdge ?a ?b i ?c2" by (rule visit_resolved [OF pq])
  have adj2: "adjList ?c2 = adjList cc" and in2: "inDegrees ?c2 = inDegrees cc"
    by (simp_all add: getFilenameId_frame)
  from inv have sync: "dom (inDegrees cc) = dom (adjList cc)" unfolding graphInv_def by blast
  have sync2: "dom (inDegrees ?c2) = dom (adjList ?c2)" unfolding adj2 in2 by (rule sync)
  have fin2: "finite (dom (adjList ?c2))" unfolding adj2 by (rule graphInv_finite(1) [OF inv])
  have "degree (inDegrees (addEdge ?a ?b i ?c2)) v = degree (inDegrees cc) v + (if v = ?b then 1 else 0)"
    unfolding addEdge_degree [OF sync2] in2 ..
  also have "\<dots> = int (entries (adjList cc) v + (if v = ?b then 1 else 0))"
    by (simp add: old)
  also have "\<dots> = int (entries (adjList (addEdge ?a ?b i ?c2)) v)"
    unfolding addEdge_entries [OF fin2] adj2 ..
  finally show ?thesis unfolding v .
qed

lemma inDegree_counts_entries:
  "degree (inDegrees (visitAll env evs circularImportCtx)) v
     = int (entries (adjList (visitAll env evs circularImportCtx)) v)"
proof (induction evs arbitrary: v rule: rev_induct)
  case Nil
  show ?case by (simp add: circularImportCtx_def degree_def entries_def)
next
  case (snoc e evs)
  have "graphInv env evs (visitAll env evs circularImportCtx)" by (rule graphInv_visitAll)
  from visit_entries_degree [OF this snoc, of "fst e" "snd e" v]
  show ?case by (simp add: visitAll_append)
qed

lemma visit_adjacency_count:
  assumes inv: "graphInv env evs cc"
    and old: "\<And>p q a b. filenameToId cc p = Some a \<Longrightarrow> filenameToId cc q = Some b \<Longrightarrow>
               count_list (neighbours (adjList cc) a) b = count_list (insertions env evs) (p, q)"
    and pa: "filenameToId (visit env (fst e) (snd e) cc) p = Some a"
    and qb: "filenameToId (visit env (fst e) (snd e) cc) q = Some b"
  shows "count_list (neighbours (adjList (visit env (fst e) (snd e) cc)) a) b
           = count_list (insertions env (evs @ [e])) (p, q)"
proof (cases "isl (getRelPath env (fst e)) \<or> isl (getRelPath env (Path (snd e)))")
  case True
  then have v: "visit env (fst e) (snd e) cc = cc" by (auto simp: visit_def split: sum.splits)
  from True have i: "insertions env (evs @ [e]) = insertions env evs"
    by (auto simp: insertions_append split: sum.splits)
  from old [of p a q b] pa qb show ?thesis unfolding v i by simp
next
  case False
  then obtain p0 q0 where pq: "getRelPath env (fst e) = Inr p0" "getRelPath env (Path (snd e)) = Inr q0"
    by (metis sum.collapse(2))
  let ?c1 = "snd (getFilenameId cc p0)"
  let ?a0 = "fst (getFilenameId cc p0)"
  let ?c2 = "snd (getFilenameId ?c1 q0)"
  let ?b0 = "fst (getFilenameId ?c1 q0)"
  let ?ins = "insertions env evs"
  have v: "visit env (fst e) (snd e) cc = addEdge ?a0 ?b0 (snd e) ?c2"
    using visit_resolved [OF pq] by simp
  have ins: "insertions env (evs @ [e]) = ?ins @ [(p0, q0)]"
    using pq by (simp add: insertions_append)
  have ok0: "idsOk cc" and ran0: "dom (adjList cc) = ran (filenameToId cc)"
    and nb0: "\<And>u. set (neighbours (adjList cc) u) \<subseteq> dom (adjList cc)"
    and paths0: "\<And>x. x \<in> set ?ins \<Longrightarrow> fst x \<in> dom (filenameToId cc) \<and> snd x \<in> dom (filenameToId cc)"
    using inv unfolding graphInv_def by blast+
  have ok2: "idsOk ?c2" by (intro idsOk_getFilenameId ok0)
  then have inj2: "inj_on (filenameToId ?c2) (dom (filenameToId ?c2))" by (simp add: idsOk_def)
  have adj2: "adjList ?c2 = adjList cc" by (simp add: getFilenameId_frame)
  have fa: "filenameToId ?c2 p0 = Some ?a0" by (intro getFilenameId_stable getFilenameId_lookup)
  have fb: "filenameToId ?c2 q0 = Some ?b0" by (rule getFilenameId_lookup)
  have ext: "filenameToId cc g = Some n \<Longrightarrow> filenameToId ?c2 g = Some n" for g n
    by (intro getFilenameId_stable)
  have pa2: "filenameToId ?c2 p = Some a" and qb2: "filenameToId ?c2 q = Some b"
    using pa qb unfolding v by (simp_all add: addEdge_frame)
  have same_id: "g = h" if "filenameToId ?c2 g = Some n" and "filenameToId ?c2 h = Some n" for g h n
  proof -
    from that have "filenameToId ?c2 g = filenameToId ?c2 h"
      and "g \<in> dom (filenameToId ?c2)" and "h \<in> dom (filenameToId ?c2)" by auto
    then show ?thesis by (rule inj_onD [OF inj2])
  qed
  have ap: "a = ?a0 \<longleftrightarrow> p = p0"
  proof
    assume "a = ?a0"
    with fa have "filenameToId ?c2 p0 = Some a" by simp
    with pa2 show "p = p0" by (rule same_id)
  next
    assume "p = p0"
    with pa2 fa show "a = ?a0" by simp
  qed
  have bq: "b = ?b0 \<longleftrightarrow> q = q0"
  proof
    assume "b = ?b0"
    with fb have "filenameToId ?c2 q0 = Some b" by simp
    with qb2 show "q = q0" by (rule same_id)
  next
    assume "q = q0"
    with qb2 fb show "b = ?b0" by simp
  qed
  have fresh: "n \<notin> ran (filenameToId cc)" if "filenameToId ?c2 g = Some n" and "filenameToId cc g = None" for g n
  proof
    assume "n \<in> ran (filenameToId cc)"
    then obtain h where h: "filenameToId cc h = Some n" by (auto simp: ran_def)
    from same_id [OF ext [OF h] that(1)] h that(2) show False by simp
  qed
  have oldc: "count_list (neighbours (adjList cc) a) b = count_list ?ins (p, q)"
  proof (cases "filenameToId cc p")
    case None
    from fresh [OF pa2 None] ran0 have "adjList cc a = None" by (metis domIff)
    then have l: "count_list (neighbours (adjList cc) a) b = 0" by (simp add: neighbours_def)
    have "(p, q) \<notin> set ?ins" using paths0 [of "(p, q)"] None by auto
    with l show ?thesis by simp
  next
    case (Some a')
    from ext [OF Some] pa2 have a': "filenameToId cc p = Some a" using Some by simp
    show ?thesis
    proof (cases "filenameToId cc q")
      case None
      from fresh [OF qb2 None] ran0 have "b \<notin> dom (adjList cc)" by simp
      with nb0 [of a] have "b \<notin> set (neighbours (adjList cc) a)" by blast
      then have l: "count_list (neighbours (adjList cc) a) b = 0" by (rule count_notin)
      have "(p, q) \<notin> set ?ins" using paths0 [of "(p, q)"] None by auto
      with l show ?thesis by simp
    next
      case (Some b')
      from ext [OF Some] qb2 have "filenameToId cc q = Some b" using Some by simp
      with a' show ?thesis by (rule old)
    qed
  qed
  have "count_list (neighbours (adjList (addEdge ?a0 ?b0 (snd e) ?c2)) a) b
      = count_list (neighbours (adjList cc) a) b + (if a = ?a0 \<and> b = ?b0 then 1 else 0)"
    by (simp add: addEdge_neighbours adj2)
  also have "\<dots> = count_list ?ins (p, q) + (if p = p0 \<and> q = q0 then 1 else 0)"
    by (simp add: oldc ap bq)
  also have "\<dots> = count_list (?ins @ [(p0, q0)]) (p, q)" by auto
  finally show ?thesis unfolding v ins .
qed

lemma adjacency_counts_includes:
  "filenameToId (visitAll env evs circularImportCtx) p = Some a \<Longrightarrow>
   filenameToId (visitAll env evs circularImportCtx) q = Some b \<Longrightarrow>
   count_list (neighbours (adjList (visitAll env evs circularImportCtx)) a) b
     = count_list (insertions env evs) (p, q)"
proof (induction evs arbitrary: p q a b rule: rev_induct)
  case Nil
  then show ?case by (simp add: circularImportCtx_def)
next
  case (snoc e evs)
  have inv: "graphInv env evs (visitAll env evs circularImportCtx)" by (rule graphInv_visitAll)
  have pa: "filenameToId (visit env (fst e) (snd e) (visitAll env evs circularImportCtx)) p = Some a"
    and qb: "filenameToId (visit env (fst e) (snd e) (visitAll env evs circularImportCtx)) q = Some b"
    using snoc.prems by (simp_all add: visitAll_append)
  have "count_list (neighbours (adjList (visit env (fst e) (snd e) (visitAll env evs circularImportCtx))) a) b
      = count_list (insertions env (evs @ [e])) (p, q)"
    by (rule visit_adjacency_count [OF inv snoc.IH pa qb])
  then show ?case by (simp add: visitAll_append)
qed

lemma targeting_split:
  "targeting q ins
     = int (count_list ins (p, q)) + int (length (filter (\<lambda>e. snd e = q \<and> fst e \<noteq> p) ins))"
  unfolding targeting_def by (induction ins) auto

lemma inDegree_targeting:
  assumes "filenameToId (visitAll env evs circularImportCtx) q = Some b"
  shows "inDegrees (visitAll env evs circularImportCtx) b = Some (targeting q (insertions env evs))"
proof -
  let ?cc = "visitAll env evs circularImportCtx"
  have inv: "graphInv env evs ?cc" by (rule graphInv_visitAll)
  then have sync: "dom (inDegrees ?cc) = dom (adjList ?cc)"
    and ran: "dom (adjList ?cc) = ran (filenameToId ?cc)"
    and deg: "\<And>q v. filenameToId ?cc q = Some v \<Longrightarrow> degree (inDegrees ?cc) v = targeting q (insertions env evs)"
    unfolding graphInv_def by blast+
  from assms have "b \<in> ran (filenameToId ?cc)" by (rule ranI)
  with sync ran obtain d where d: "inDegrees ?cc b = Some d" by blast
  then have "degree (inDegrees ?cc) b = d" by (simp add: degree_def)
  with deg [OF assms] d show ?thesis by simp
qed

text \<open>Two visits in a row of includes that normalise to the same file, in any state
  that the visit function can have built.\<close>

lemma two_visits_in_a_row:
  assumes p: "getRelPath env filename = Inr p"
    and q1: "getRelPath env (Path i1) = Inr q" and q2: "getRelPath env (Path i2) = Inr q"
  shows "\<exists>a b. filenameToId (visit env filename i2 (visit env filename i1 (visitAll env evs circularImportCtx))) p = Some a
     \<and> filenameToId (visit env filename i2 (visit env filename i1 (visitAll env evs circularImportCtx))) q = Some b
     \<and> adjList (visit env filename i2 (visit env filename i1 (visitAll env evs circularImportCtx))) a
         = Some (neighbours (adjList (visitAll env evs circularImportCtx)) a @ [b, b])
     \<and> inDegrees (visit env filename i2 (visit env filename i1 (visitAll env evs circularImportCtx))) b
         = Some (degree (inDegrees (visitAll env evs circularImportCtx)) b + 2)"
proof -
  let ?cc = "visitAll env evs circularImportCtx"
  let ?c1 = "snd (getFilenameId ?cc p)"
  let ?a = "fst (getFilenameId ?cc p)"
  let ?c2 = "snd (getFilenameId ?c1 q)"
  let ?b = "fst (getFilenameId ?c1 q)"
  let ?v1 = "addEdge ?a ?b i1 ?c2"
  let ?v2 = "addEdge ?a ?b i2 ?v1"
  have inv: "graphInv env evs ?cc" by (rule graphInv_visitAll)
  then have sync0: "dom (inDegrees ?cc) = dom (adjList ?cc)" unfolding graphInv_def by blast
  have v1: "visit env filename i1 ?cc = ?v1" using visit_resolved [OF p q1] by simp
  have fa: "filenameToId ?c2 p = Some ?a" by (intro getFilenameId_stable getFilenameId_lookup)
  have fb: "filenameToId ?c2 q = Some ?b" by (rule getFilenameId_lookup)
  have fa1: "filenameToId ?v1 p = Some ?a" and fb1: "filenameToId ?v1 q = Some ?b"
    by (simp_all add: addEdge_frame fa fb)
  have kp: "fst (getFilenameId ?v1 p) = ?a" "snd (getFilenameId ?v1 p) = ?v1"
    using getFilenameId_known_pair [OF fa1] by simp_all
  have kq: "fst (getFilenameId ?v1 q) = ?b" "snd (getFilenameId ?v1 q) = ?v1"
    using getFilenameId_known_pair [OF fb1] by simp_all
  have v2: "visit env filename i2 ?v1 = ?v2"
    using visit_resolved [OF p q2, of ?v1] by (simp add: kp kq)
  have fa2: "filenameToId ?v2 p = Some ?a" and fb2: "filenameToId ?v2 q = Some ?b"
    by (simp_all add: addEdge_frame fa fb)
  have adj2: "adjList ?c2 = adjList ?cc" and in2: "inDegrees ?c2 = inDegrees ?cc"
    by (simp_all add: getFilenameId_frame)
  have sync2: "dom (inDegrees ?c2) = dom (adjList ?c2)" by (simp add: adj2 in2 sync0)
  have sync1: "dom (inDegrees ?v1) = dom (adjList ?v1)"
    by (simp add: addEdge_dom_inDegrees [OF sync2] addEdge_dom_adjList sync2)
  have n: "neighbours (adjList ?v2) ?a = neighbours (adjList ?cc) ?a @ [?b, ?b]"
    by (simp add: addEdge_neighbours adj2)
  have "?a \<in> dom (adjList ?v2)" by (simp add: addEdge_dom_adjList)
  then obtain vs where vs: "adjList ?v2 ?a = Some vs" by blast
  then have "neighbours (adjList ?v2) ?a = vs" by (simp add: neighbours_def)
  with n vs have A: "adjList ?v2 ?a = Some (neighbours (adjList ?cc) ?a @ [?b, ?b])" by simp
  have d: "degree (inDegrees ?v2) ?b = degree (inDegrees ?cc) ?b + 2"
    by (simp add: addEdge_degree [OF sync1] addEdge_degree [OF sync2] in2)
  have "?b \<in> dom (inDegrees ?v2)" by (simp add: addEdge_dom_inDegrees [OF sync1])
  then obtain k where k: "inDegrees ?v2 ?b = Some k" by blast
  then have "degree (inDegrees ?v2) ?b = k" by (simp add: degree_def)
  with d k have B: "inDegrees ?v2 ?b = Some (degree (inDegrees ?cc) ?b + 2)" by simp
  show ?thesis unfolding v1 v2 using fa2 fb2 A B by blast
qed

section \<open>The example runs, evaluated\<close>

lemmas run_simps = visit_def getFilenameId_def addEdge_def ensureVertex_def
  circularImportCtx_def degree_def neighbours_def Let_def includeAt_def

lemmas pass_simps = topologicalPass_def degree_def neighbours_def drainSources.simps

lemma fork_adjList:
  "adjList (visitAll demoEnv forkRun circularImportCtx) = [1 \<mapsto> [2, 3], 2 \<mapsto> [4], 3 \<mapsto> [], 4 \<mapsto> []]"
  by (rule ext) (simp add: forkRun_def run_simps)

lemma fork_inDegrees:
  "inDegrees (visitAll demoEnv forkRun circularImportCtx) = [1 \<mapsto> 0, 2 \<mapsto> 1, 3 \<mapsto> 1, 4 \<mapsto> 1]"
  by (rule ext) (simp add: forkRun_def run_simps)

lemma swapped_adjList:
  "adjList (visitAll demoEnv forkRunSwapped circularImportCtx) = [1 \<mapsto> [2, 3], 2 \<mapsto> [], 3 \<mapsto> [4], 4 \<mapsto> []]"
  by (rule ext) (simp add: forkRunSwapped_def run_simps)

lemma swapped_inDegrees:
  "inDegrees (visitAll demoEnv forkRunSwapped circularImportCtx) = [1 \<mapsto> 0, 2 \<mapsto> 1, 3 \<mapsto> 1, 4 \<mapsto> 1]"
  by (rule ext) (simp add: forkRunSwapped_def run_simps)

lemma hidden_adjList:
  "adjList (visitAll demoEnv hiddenCycleRun circularImportCtx) = [1 \<mapsto> [2, 3], 2 \<mapsto> [], 3 \<mapsto> [4], 4 \<mapsto> [3]]"
  by (rule ext) (simp add: hiddenCycleRun_def run_simps)

lemma hidden_inDegrees:
  "inDegrees (visitAll demoEnv hiddenCycleRun circularImportCtx) = [1 \<mapsto> 0, 2 \<mapsto> 1, 3 \<mapsto> 2, 4 \<mapsto> 1]"
  by (rule ext) (simp add: hiddenCycleRun_def run_simps)

lemma edges_acyclic_increasing:
  assumes "\<And>u v. (u, v) \<in> edges adj \<Longrightarrow> u < v"
  shows "acyclic (edges adj)"
proof (rule acyclicI_order [where f = uminus])
  fix a b assume "(a, b) \<in> edges adj"
  then show "- b < - a" using assms by simp
qed

lemma fork_acyclic: "\<not> hasCycle [1 \<mapsto> [2, 3], 2 \<mapsto> [4], 3 \<mapsto> [], 4 \<mapsto> []]"
  unfolding hasCycle_def
  by (simp, rule edges_acyclic_increasing) (auto simp: edges_def neighbours_def split: if_splits)

lemma hidden_cyclic: "hasCycle [1 \<mapsto> [2, 3], 2 \<mapsto> [], 3 \<mapsto> [4], 4 \<mapsto> [3]]"
proof -
  let ?adj = "[1 \<mapsto> [2, 3], 2 \<mapsto> [], 3 \<mapsto> [4], 4 \<mapsto> [3::int]] :: int \<rightharpoonup> int list"
  have "(3, 4) \<in> edges ?adj" and "(4, 3) \<in> edges ?adj"
    by (simp_all add: edges_def neighbours_def)
  then have "(3, 3) \<in> (edges ?adj)\<^sup>+" by (rule trancl_into_trancl2 [OF _ r_into_trancl])
  then show ?thesis by (auto simp: hasCycle_def acyclic_def)
qed

lemma collectSources_filter:
  "collectSources inDeg ks (count, sources) =
     (count + int (length (filter (\<lambda>v. degree inDeg v = 0) ks)),
      sources @ filter (\<lambda>v. degree inDeg v = 0) ks)"
  by (induction ks arbitrary: count sources) auto

lemma filter_single:
  assumes "distinct ks" and "{v \<in> set ks. P v} = {a}"
  shows "filter P ks = [a]"
proof -
  have d: "distinct (filter P ks)" using assms(1) by simp
  have s: "set (filter P ks) = {a}" using assms(2) by auto
  from d have "card (set (filter P ks)) = length (filter P ks)" by (rule distinct_card)
  with s have "length (filter P ks) = 1" by simp
  then obtain x where "filter P ks = [x]" by (auto simp: length_Suc_conv)
  with s show ?thesis by simp
qed

lemma fork_count_any_order:
  assumes "distinct ks" and "set ks = {1, 2, 3, 4}"
  shows "map_option snd (topologicalPass ks [1 \<mapsto> [2, 3], 2 \<mapsto> [4], 3 \<mapsto> [], 4 \<mapsto> []]
           [1 \<mapsto> 0, 2 \<mapsto> 1, 3 \<mapsto> 1, 4 \<mapsto> 1]) = Some 3"
proof -
  have "{v \<in> set ks. degree [1 \<mapsto> 0, 2 \<mapsto> 1, 3 \<mapsto> 1, 4 \<mapsto> 1] v = 0} = {1}"
    unfolding assms(2) by (auto simp: degree_def)
  from filter_single [OF assms(1) this]
  show ?thesis
    by (simp add: topologicalPass_def collectSources_filter)
       (simp add: degree_def neighbours_def drainSources.simps)
qed

lemma twoImports_edgeMeta:
  "edgeMeta (visitAll demoEnv twoImportsRun circularImportCtx) = [1 \<mapsto> [2 \<mapsto> includeAt 1 ''b.thrift'']]"
  by (rule ext) (simp add: twoImportsRun_def run_simps)

lemma back_adjList:
  "adjList (visitAll demoEnv backImportRun circularImportCtx) = [1 \<mapsto> [2, 3], 2 \<mapsto> [], 3 \<mapsto> [1]]"
  by (rule ext) (simp add: backImportRun_def twoImportsRun_def run_simps)

lemma back_inDegrees:
  "inDegrees (visitAll demoEnv backImportRun circularImportCtx) = [1 \<mapsto> 1, 2 \<mapsto> 1, 3 \<mapsto> 1]"
  by (rule ext) (simp add: backImportRun_def twoImportsRun_def run_simps)

lemma back_edgeMeta:
  "edgeMeta (visitAll demoEnv backImportRun circularImportCtx)
     = [1 \<mapsto> [2 \<mapsto> includeAt 1 ''b.thrift''], 3 \<mapsto> [1 \<mapsto> includeAt 1 ''a.thrift'']]"
  by (rule ext) (simp add: backImportRun_def twoImportsRun_def run_simps)

lemma single_adjList:
  "adjList (visitAll demoEnv singleRun circularImportCtx) = [1 \<mapsto> [2], 2 \<mapsto> []]"
  by (rule ext) (simp add: singleRun_def run_simps)

lemma single_inDegrees:
  "inDegrees (visitAll demoEnv singleRun circularImportCtx) = [1 \<mapsto> 0, 2 \<mapsto> 1]"
  by (rule ext) (simp add: singleRun_def run_simps)

text \<open>In \<open>backImportRun\<close> the files a and c include each other, and the search finds the
  cycle 1, 3. The include of c by a was the second include of a, so no metadata was
  recorded for it, and finalize stops at the nil pointer after printing the header.\<close>

lemma backImport_nil_dereference:
  "map_option fst (finalize demoEnv [1, 2, 3] [1, 2, 3] (visitAll demoEnv backImportRun circularImportCtx)) = Some [CycleDetected]
   \<and> map_option (fst \<circ> snd) (finalize demoEnv [1, 2, 3] [1, 2, 3] (visitAll demoEnv backImportRun circularImportCtx))
       = Some (Some NilDereference)"
  unfolding finalize_def back_adjList back_inDegrees
  by (simp add: lookForCycle_def pass_simps findCycleVertices_def dfs.simps metaOf_def back_edgeMeta)

lemma twice_targeting: "targeting ''b.thrift'' (insertions demoEnv twiceRun) = 2"
  by (simp add: targeting_def twiceRun_def includeAt_def)

lemma twice_ids:
  "filenameToId (visitAll demoEnv twiceRun circularImportCtx) ''b.thrift'' = Some 2"
  by (simp add: twiceRun_def run_simps)

lemma fork_dom: "dom (adjList (visitAll demoEnv forkRun circularImportCtx)) = {1, 2, 3, 4}"
  unfolding fork_adjList by auto

lemma swapped_dom: "dom (adjList (visitAll demoEnv forkRunSwapped circularImportCtx)) = {1, 2, 3, 4}"
  unfolding swapped_adjList by auto

lemma hidden_dom: "dom (adjList (visitAll demoEnv hiddenCycleRun circularImportCtx)) = {1, 2, 3, 4}"
  unfolding hidden_adjList by auto

lemma fork_closed:
  "set (neighbours [1 \<mapsto> [2, 3], 2 \<mapsto> [4], 3 \<mapsto> [], 4 \<mapsto> []] v) \<subseteq> {1, 2, 3, 4}"
  by (auto simp: neighbours_def)

lemma fork_panics_any_order:
  assumes "distinct ks" and "set ks = {1, 2, 3, 4}"
  shows "map_option fst (lookForCycle ks ks' [1 \<mapsto> [2, 3], 2 \<mapsto> [4], 3 \<mapsto> [], 4 \<mapsto> []]
           [1 \<mapsto> 0, 2 \<mapsto> 1, 3 \<mapsto> 1, 4 \<mapsto> 1]) = Some (Inl Unreachable)"
proof -
  let ?adj = "[1 \<mapsto> [2, 3], 2 \<mapsto> [4], 3 \<mapsto> [], 4 \<mapsto> []] :: int \<rightharpoonup> int list"
  from fork_count_any_order [OF assms] obtain d
    where t: "topologicalPass ks ?adj [1 \<mapsto> 0, 2 \<mapsto> 1, 3 \<mapsto> 1, 4 \<mapsto> 1] = Some (d, 3)"
    by auto
  have f: "findCycleVertices ks' ?adj = Some (Inl Unreachable)"
    by (rule acyclic_search_panics [OF fork_acyclic _ fork_closed]) simp
  have c: "card (dom ?adj) = 4" by simp
  show ?thesis unfolding lookForCycle_def t f c by simp
qed

lemma hidden_missed_any_order:
  assumes "distinct ks" and "set ks = {1, 2, 3, 4}"
  shows "map_option fst (lookForCycle ks ks' [1 \<mapsto> [2, 3], 2 \<mapsto> [], 3 \<mapsto> [4], 4 \<mapsto> [3]]
           [1 \<mapsto> 0, 2 \<mapsto> 1, 3 \<mapsto> 2, 4 \<mapsto> 1]) = Some (Inr ([], False))"
proof -
  let ?adj = "[1 \<mapsto> [2, 3], 2 \<mapsto> [], 3 \<mapsto> [4], 4 \<mapsto> [3]] :: int \<rightharpoonup> int list"
  let ?in = "[1 \<mapsto> 0, 2 \<mapsto> 1, 3 \<mapsto> 2, 4 \<mapsto> 1] :: int \<rightharpoonup> int"
  have "{v \<in> set ks. degree ?in v = 0} = {1}"
    unfolding assms(2) by (auto simp: degree_def)
  from filter_single [OF assms(1) this]
  have "map_option snd (topologicalPass ks ?adj ?in) = Some 4"
    by (simp add: topologicalPass_def collectSources_filter)
       (simp add: degree_def neighbours_def drainSources.simps)
  then obtain d where t: "topologicalPass ks ?adj ?in = Some (d, 4)" by auto
  have c: "card (dom ?adj) = 4" by simp
  show ?thesis unfolding lookForCycle_def t c by simp
qed

lemma swapped_any_order:
  assumes "distinct ks" and "set ks = {1, 2, 3, 4}"
  shows "map_option fst (lookForCycle ks ks' [1 \<mapsto> [2, 3], 2 \<mapsto> [], 3 \<mapsto> [4], 4 \<mapsto> []]
           [1 \<mapsto> 0, 2 \<mapsto> 1, 3 \<mapsto> 1, 4 \<mapsto> 1]) = Some (Inr ([], False))"
proof -
  let ?adj = "[1 \<mapsto> [2, 3], 2 \<mapsto> [], 3 \<mapsto> [4], 4 \<mapsto> []] :: int \<rightharpoonup> int list"
  let ?in = "[1 \<mapsto> 0, 2 \<mapsto> 1, 3 \<mapsto> 1, 4 \<mapsto> 1] :: int \<rightharpoonup> int"
  have "{v \<in> set ks. degree ?in v = 0} = {1}"
    unfolding assms(2) by (auto simp: degree_def)
  from filter_single [OF assms(1) this]
  have "map_option snd (topologicalPass ks ?adj ?in) = Some 4"
    by (simp add: topologicalPass_def collectSources_filter)
       (simp add: degree_def neighbours_def drainSources.simps)
  then obtain d where t: "topologicalPass ks ?adj ?in = Some (d, 4)" by auto
  have c: "card (dom ?adj) = 4" by simp
  show ?thesis unfolding lookForCycle_def t c by simp
qed

lemma back_find: "findCycleVertices [1, 2, 3] [1 \<mapsto> [2, 3], 2 \<mapsto> [], 3 \<mapsto> [1]] = Some (Inr [1, 3])"
  by (simp add: findCycleVertices_def dfs.simps neighbours_def)

lemma interleaved_ids:
  "filenameToId (visitAll demoEnv interleavedRun circularImportCtx) ''a.thrift'' = Some 1"
  "filenameToId (visitAll demoEnv interleavedRun circularImportCtx) ''b.thrift'' = Some 2"
  by (simp_all add: interleavedRun_def run_simps)

lemma interleaved_adjList:
  "adjList (visitAll demoEnv interleavedRun circularImportCtx) 1 = Some [2, 3, 2]"
  by (simp add: interleavedRun_def run_simps)

lemma interleaved_insertions:
  "insertions demoEnv interleavedRun
     = [(''a.thrift'', ''b.thrift''), (''a.thrift'', ''c.thrift''), (''a.thrift'', ''b.thrift'')]"
  by (simp add: interleavedRun_def includeAt_def)

section \<open>The claims\<close>

text \<open>
  Claim C1 fails on the code. In \<open>forkRun\<close> the file s includes a and b, and a includes
  c: the graph 1 \<rightarrow> 2, 1 \<rightarrow> 3, 2 \<rightarrow> 4 has no cycle. The topological pass counts 3 of its
  4 vertices: when vertex 3 reaches in-degree zero, \<open>newSources\<close> is set to the old
  worklist followed by 3, which drops vertex 2, so the edge from 2 to 4 is never
  relaxed. The count differs from the number of vertices, and the pass reports a cycle.
  This holds for every order \<open>ks\<close> in which the first loop may walk the keys of the map.
\<close>

theorem fork_miscounted:
  assumes "distinct ks" and "set ks = dom (adjList (visitAll demoEnv forkRun circularImportCtx))"
  shows "\<not> hasCycle (adjList (visitAll demoEnv forkRun circularImportCtx))
   \<and> map_option snd
        (topologicalPass ks (adjList (visitAll demoEnv forkRun circularImportCtx))
           (inDegrees (visitAll demoEnv forkRun circularImportCtx))) = Some 3
   \<and> card (dom (adjList (visitAll demoEnv forkRun circularImportCtx))) = 4"
proof -
  from assms(2) have s: "set ks = {1, 2, 3, 4}" by (simp add: fork_dom)
  show ?thesis
    unfolding fork_dom unfolding fork_adjList fork_inDegrees
    using fork_acyclic fork_count_any_order [OF assms(1) s] by simp
qed

theorem fork_miscounted_witness:
  "distinct [1, 2, 3, 4 :: int]
   \<and> set [1, 2, 3, 4] = dom (adjList (visitAll demoEnv forkRun circularImportCtx))
   \<and> map_option snd
        (topologicalPass [1, 2, 3, 4] (adjList (visitAll demoEnv forkRun circularImportCtx))
           (inDegrees (visitAll demoEnv forkRun circularImportCtx))) = Some 3
   \<and> card (dom (adjList (visitAll demoEnv forkRun circularImportCtx))) = 4"
proof -
  have d: "distinct [1, 2, 3, 4 :: int]" by simp
  have s: "set [1, 2, 3, 4] = dom (adjList (visitAll demoEnv forkRun circularImportCtx))"
    by (simp add: fork_dom)
  from fork_miscounted [OF d s] d s show ?thesis by blast
qed

text \<open>
  Claim C2 fails on the code. In \<open>hiddenCycleRun\<close> the files a and b include each
  other, so the graph has the cycle 3 \<rightarrow> 4 \<rightarrow> 3; s includes t and a. The old worklist is
  processed again in every generation, so the edge from 1 to 3 is relaxed twice and the
  in-degree of vertex 3 reaches zero although the edge from 4 is still there. The pass
  counts all four vertices and finalize prints nothing, for every order in which the
  maps are walked. (A second defect is shown by lemma \<open>backImport_nil_dereference\<close>:
  when the cycle is found, a missing edge metadata entry stops finalize with a nil
  dereference.)
\<close>

theorem hidden_cycle_missed:
  assumes "distinct ks" and "set ks = dom (adjList (visitAll demoEnv hiddenCycleRun circularImportCtx))"
  shows "hasCycle (adjList (visitAll demoEnv hiddenCycleRun circularImportCtx))
   \<and> map_option fst (finalize demoEnv ks ks' (visitAll demoEnv hiddenCycleRun circularImportCtx)) = Some []
   \<and> map_option (fst \<circ> snd) (finalize demoEnv ks ks' (visitAll demoEnv hiddenCycleRun circularImportCtx)) = Some None"
proof -
  from assms(2) have s: "set ks = {1, 2, 3, 4}" by (simp add: hidden_dom)
  have l: "map_option fst
     (lookForCycle ks ks' (adjList (visitAll demoEnv hiddenCycleRun circularImportCtx))
        (inDegrees (visitAll demoEnv hiddenCycleRun circularImportCtx))) = Some (Inr ([], False))"
    unfolding hidden_adjList hidden_inDegrees by (rule hidden_missed_any_order [OF assms(1) s])
  have "hasCycle (adjList (visitAll demoEnv hiddenCycleRun circularImportCtx))"
    unfolding hidden_adjList by (rule hidden_cyclic)
  with finalize_of_no_cycle [OF l] show ?thesis by blast
qed

theorem hidden_cycle_missed_witness:
  "distinct [1, 2, 3, 4 :: int]
   \<and> set [1, 2, 3, 4] = dom (adjList (visitAll demoEnv hiddenCycleRun circularImportCtx))
   \<and> hasCycle (adjList (visitAll demoEnv hiddenCycleRun circularImportCtx))
   \<and> map_option fst
        (finalize demoEnv [1, 2, 3, 4] [1, 2, 3, 4] (visitAll demoEnv hiddenCycleRun circularImportCtx)) = Some []"
proof -
  have d: "distinct [1, 2, 3, 4 :: int]" by simp
  have s: "set [1, 2, 3, 4] = dom (adjList (visitAll demoEnv hiddenCycleRun circularImportCtx))"
    by (simp add: hidden_dom)
  from hidden_cycle_missed [OF d s] d s show ?thesis by blast
qed

text \<open>
  Claim C3 fails on the code. On the acyclic graph of \<open>forkRun\<close> the topological pass
  reports a cycle (claim C1), the search of \<open>findCycleVertices\<close> finds none, and the
  panic \<open>unreachable (expected a cycle to exist)\<close> is reached: \<open>lookForCycle\<close> and
  finalize end in it, with nothing printed, for every order \<open>ks\<close> of the first loop
  over the map and every order \<open>ks'\<close> of the second.
\<close>

theorem fork_panics:
  assumes "distinct ks" and "set ks = dom (adjList (visitAll demoEnv forkRun circularImportCtx))"
  shows "map_option fst
     (lookForCycle ks ks' (adjList (visitAll demoEnv forkRun circularImportCtx))
        (inDegrees (visitAll demoEnv forkRun circularImportCtx))) = Some (Inl Unreachable)
   \<and> map_option fst (finalize demoEnv ks ks' (visitAll demoEnv forkRun circularImportCtx)) = Some []
   \<and> map_option (fst \<circ> snd) (finalize demoEnv ks ks' (visitAll demoEnv forkRun circularImportCtx))
       = Some (Some Unreachable)"
proof -
  from assms(2) have s: "set ks = {1, 2, 3, 4}" by (simp add: fork_dom)
  have l: "map_option fst
     (lookForCycle ks ks' (adjList (visitAll demoEnv forkRun circularImportCtx))
        (inDegrees (visitAll demoEnv forkRun circularImportCtx))) = Some (Inl Unreachable)"
    unfolding fork_adjList fork_inDegrees by (rule fork_panics_any_order [OF assms(1) s])
  from l finalize_of_panic [OF l] show ?thesis by blast
qed

theorem fork_panics_witness:
  "distinct [1, 2, 3, 4 :: int]
   \<and> set [1, 2, 3, 4] = dom (adjList (visitAll demoEnv forkRun circularImportCtx))
   \<and> map_option (fst \<circ> snd)
        (finalize demoEnv [1, 2, 3, 4] [1, 2, 3, 4] (visitAll demoEnv forkRun circularImportCtx))
       = Some (Some Unreachable)"
proof -
  have d: "distinct [1, 2, 3, 4 :: int]" by simp
  have s: "set [1, 2, 3, 4] = dom (adjList (visitAll demoEnv forkRun circularImportCtx))"
    by (simp add: fork_dom)
  from fork_panics [OF d s] d s show ?thesis by blast
qed

text \<open>
  Claim C4 fails on the code. The visit function records the Include node only when
  the importer has no metadata map at all; the assignment for the pair stands inside
  that test. In \<open>twoImportsRun\<close> the file a includes b and then c: the edge to c is in
  the adjacency list, the first include is recorded for the pair (a, b), and nothing is
  recorded for the pair (a, c).
\<close>

theorem second_import_not_recorded:
  "adjList (visitAll demoEnv twoImportsRun circularImportCtx) 1 = Some [2, 3]
   \<and> metaOf (visitAll demoEnv twoImportsRun circularImportCtx) 1 2 = Some (includeAt 1 ''b.thrift'')
   \<and> metaOf (visitAll demoEnv twoImportsRun circularImportCtx) 1 3 = None"
  by (simp add: metaOf_def twoImportsRun_def run_simps)

text \<open>
  Claim C5, as stated, fails in its last part: finalize does write to the in-degree
  map. After \<open>singleRun\<close> (a includes b) the in-degree of vertex 2 is 1; finalize
  returns, and leaves it at -1.
\<close>

theorem finalize_writes_inDegrees:
  "inDegrees (visitAll demoEnv singleRun circularImportCtx) 2 = Some 1
   \<and> finalize demoEnv [1, 2] [1, 2] (visitAll demoEnv singleRun circularImportCtx) \<noteq> None
   \<and> inDegrees (snd (snd (the (finalize demoEnv [1, 2] [1, 2] (visitAll demoEnv singleRun circularImportCtx))))) 2
       = Some (- 1)"
  unfolding finalize_def single_adjList single_inDegrees
  by (simp add: lookForCycle_def pass_simps)

text \<open>
  Claim C5, amended. After every run of the visit function, every vertex that is a key
  of \<open>adjList\<close> or of \<open>inDegrees\<close>, or stands in an adjacency list, is the id of a
  path in \<open>filenameToId\<close>; for every path with an id, the in-degree of its vertex is
  the number of edge insertions of the run that had the path as importee; and when
  finalize returns it has changed no field of the state but \<open>inDegrees\<close>, which
  \<open>lookForCycle\<close> decrements in place.
\<close>

theorem graph_state_after_visits:
  "dom (adjList (visitAll env evs circularImportCtx)) \<union> dom (inDegrees (visitAll env evs circularImportCtx))
      \<union> \<Union> (set ` ran (adjList (visitAll env evs circularImportCtx)))
     \<subseteq> ran (filenameToId (visitAll env evs circularImportCtx))
   \<and> (\<forall>q v. filenameToId (visitAll env evs circularImportCtx) q = Some v \<longrightarrow>
         inDegrees (visitAll env evs circularImportCtx) v = Some (targeting q (insertions env evs)))
   \<and> (\<forall>r. finalize env ks ks' (visitAll env evs circularImportCtx) = Some r \<longrightarrow>
         snd (snd r) = (visitAll env evs circularImportCtx)\<lparr>inDegrees := inDegrees (snd (snd r))\<rparr>)"
proof -
  let ?cc = "visitAll env evs circularImportCtx"
  have inv: "graphInv env evs ?cc" by (rule graphInv_visitAll)
  then have sync: "dom (inDegrees ?cc) = dom (adjList ?cc)"
    and ran: "dom (adjList ?cc) = ran (filenameToId ?cc)"
    and deg: "\<And>q v. filenameToId ?cc q = Some v \<Longrightarrow> degree (inDegrees ?cc) v = targeting q (insertions env evs)"
    unfolding graphInv_def by blast+
  have tgt: "\<Union> (set ` ran (adjList ?cc)) \<subseteq> dom (adjList ?cc)"
  proof
    fix v assume "v \<in> \<Union> (set ` ran (adjList ?cc))"
    then obtain u vs where "adjList ?cc u = Some vs" and "v \<in> set vs" by (auto simp: ran_def)
    then have "v \<in> set (neighbours (adjList ?cc) u)" by (simp add: neighbours_def)
    with graphInv_closed [OF inv] show "v \<in> dom (adjList ?cc)" by blast
  qed
  have 1: "dom (adjList ?cc) \<union> dom (inDegrees ?cc) \<union> \<Union> (set ` ran (adjList ?cc)) \<subseteq> ran (filenameToId ?cc)"
    using tgt sync ran by blast
  have 2: "inDegrees ?cc v = Some (targeting q (insertions env evs))" if "filenameToId ?cc q = Some v" for q v
  proof -
    from that have "v \<in> ran (filenameToId ?cc)" by (rule ranI)
    with sync ran obtain d where d: "inDegrees ?cc v = Some d" by blast
    then have "degree (inDegrees ?cc) v = d" by (simp add: degree_def)
    with deg [OF that] d show ?thesis by simp
  qed
  show ?thesis
  proof (intro conjI allI impI)
    show "dom (adjList ?cc) \<union> dom (inDegrees ?cc) \<union> \<Union> (set ` ran (adjList ?cc)) \<subseteq> ran (filenameToId ?cc)"
      by (rule 1)
  next
    fix q v assume "filenameToId ?cc q = Some v"
    then show "inDegrees ?cc v = Some (targeting q (insertions env evs))" by (rule 2)
  next
    fix r assume "finalize env ks ks' ?cc = Some r"
    then show "snd (snd r) = ?cc\<lparr>inDegrees := inDegrees (snd (snd r))\<rparr>" by (rule finalize_frame)
  qed
qed

theorem graph_state_after_visits_witness:
  "filenameToId (visitAll demoEnv twiceRun circularImportCtx) ''b.thrift'' = Some 2
   \<and> inDegrees (visitAll demoEnv twiceRun circularImportCtx) 2 = Some 2
   \<and> targeting ''b.thrift'' (insertions demoEnv twiceRun) = 2
   \<and> finalize demoEnv [1, 2] [1, 2] (visitAll demoEnv singleRun circularImportCtx) \<noteq> None
   \<and> adjList (snd (snd (the (finalize demoEnv [1, 2] [1, 2] (visitAll demoEnv singleRun circularImportCtx)))))
       = adjList (visitAll demoEnv singleRun circularImportCtx)"
proof -
  note t = graph_state_after_visits [where env = demoEnv and evs = twiceRun and ks = "[1, 2]" and ks' = "[1, 2]"]
  have 1: "inDegrees (visitAll demoEnv twiceRun circularImportCtx) 2 = Some 2"
    using t [THEN conjunct2, THEN conjunct1, rule_format, OF twice_ids]
    unfolding twice_targeting .
  have s: "finalize demoEnv [1, 2] [1, 2] (visitAll demoEnv singleRun circularImportCtx) \<noteq> None"
    unfolding finalize_def single_adjList single_inDegrees
    by (simp add: lookForCycle_def pass_simps)
  then obtain r where r: "finalize demoEnv [1, 2] [1, 2] (visitAll demoEnv singleRun circularImportCtx) = Some r"
    by blast
  note u = graph_state_after_visits [where env = demoEnv and evs = singleRun and ks = "[1, 2]" and ks' = "[1, 2]"]
  have "snd (snd r) = (visitAll demoEnv singleRun circularImportCtx)\<lparr>inDegrees := inDegrees (snd (snd r))\<rparr>"
    by (rule u [THEN conjunct2, THEN conjunct2, rule_format, OF r])
  then have "adjList (snd (snd r))
      = adjList ((visitAll demoEnv singleRun circularImportCtx)\<lparr>inDegrees := inDegrees (snd (snd r))\<rparr>)"
    by (rule arg_cong)
  then have 2: "adjList (snd (snd r)) = adjList (visitAll demoEnv singleRun circularImportCtx)"
    by simp
  show ?thesis
  proof (intro conjI)
    show "filenameToId (visitAll demoEnv twiceRun circularImportCtx) ''b.thrift'' = Some 2"
      by (rule twice_ids)
    show "inDegrees (visitAll demoEnv twiceRun circularImportCtx) 2 = Some 2" by (rule 1)
    show "targeting ''b.thrift'' (insertions demoEnv twiceRun) = 2" by (rule twice_targeting)
    show "finalize demoEnv [1, 2] [1, 2] (visitAll demoEnv singleRun circularImportCtx) \<noteq> None"
      by (rule s)
    show "adjList (snd (snd (the (finalize demoEnv [1, 2] [1, 2] (visitAll demoEnv singleRun circularImportCtx)))))
       = adjList (visitAll demoEnv singleRun circularImportCtx)"
      unfolding r option.sel by (rule 2)
  qed
qed

text \<open>
  Claim C6 fails on the code. \<open>forkRunSwapped\<close> holds the three includes of
  \<open>forkRun\<close> with the first two exchanged; both runs build a graph on the vertices
  1 to 4. Visited as \<open>forkRun\<close>, the pass reports a cycle (and the search panics);
  visited as \<open>forkRunSwapped\<close>, the pass counts all four vertices and reports none.
  The orders \<open>ks\<close> and \<open>ks'\<close> in which the maps are walked make no difference.
\<close>

theorem verdict_depends_on_visit_order:
  assumes "distinct ks" and "set ks = {1, 2, 3, 4}"
  shows "forkRunSwapped = [forkRun ! 1, forkRun ! 0, forkRun ! 2] \<and> length forkRun = 3
   \<and> dom (adjList (visitAll demoEnv forkRun circularImportCtx)) = set ks
   \<and> dom (adjList (visitAll demoEnv forkRunSwapped circularImportCtx)) = set ks
   \<and> map_option fst
        (lookForCycle ks ks' (adjList (visitAll demoEnv forkRun circularImportCtx))
           (inDegrees (visitAll demoEnv forkRun circularImportCtx))) = Some (Inl Unreachable)
   \<and> map_option fst
        (lookForCycle ks ks' (adjList (visitAll demoEnv forkRunSwapped circularImportCtx))
           (inDegrees (visitAll demoEnv forkRunSwapped circularImportCtx))) = Some (Inr ([], False))"
proof (intro conjI)
  show "forkRunSwapped = [forkRun ! 1, forkRun ! 0, forkRun ! 2]"
    by (simp add: forkRun_def forkRunSwapped_def)
  show "length forkRun = 3" by (simp add: forkRun_def)
  show "dom (adjList (visitAll demoEnv forkRun circularImportCtx)) = set ks"
    by (simp add: fork_dom assms(2))
  show "dom (adjList (visitAll demoEnv forkRunSwapped circularImportCtx)) = set ks"
    by (simp add: swapped_dom assms(2))
  show "map_option fst
        (lookForCycle ks ks' (adjList (visitAll demoEnv forkRun circularImportCtx))
           (inDegrees (visitAll demoEnv forkRun circularImportCtx))) = Some (Inl Unreachable)"
    unfolding fork_adjList fork_inDegrees by (rule fork_panics_any_order [OF assms])
  show "map_option fst
        (lookForCycle ks ks' (adjList (visitAll demoEnv forkRunSwapped circularImportCtx))
           (inDegrees (visitAll demoEnv forkRunSwapped circularImportCtx))) = Some (Inr ([], False))"
    unfolding swapped_adjList swapped_inDegrees by (rule swapped_any_order [OF assms])
qed

theorem verdict_depends_on_visit_order_witness:
  "distinct [1, 2, 3, 4 :: int] \<and> set [1, 2, 3, 4 :: int] = {1, 2, 3, 4}
   \<and> map_option fst
        (lookForCycle [1, 2, 3, 4] [1, 2, 3, 4] (adjList (visitAll demoEnv forkRun circularImportCtx))
           (inDegrees (visitAll demoEnv forkRun circularImportCtx))) = Some (Inl Unreachable)
   \<and> map_option fst
        (lookForCycle [1, 2, 3, 4] [1, 2, 3, 4] (adjList (visitAll demoEnv forkRunSwapped circularImportCtx))
           (inDegrees (visitAll demoEnv forkRunSwapped circularImportCtx))) = Some (Inr ([], False))"
proof -
  have d: "distinct [1, 2, 3, 4 :: int]" by simp
  have s: "set [1, 2, 3, 4 :: int] = {1, 2, 3, 4}" by simp
  from verdict_depends_on_visit_order [OF d s] d s show ?thesis by blast
qed

text \<open>
  Claim C7, as stated, fails: in \<open>twiceRun\<close> the file a includes b twice, under two
  spellings that normalise to the same path, and the adjacency list of a then holds b
  twice, not once. The in-degree of b is 2.
\<close>

theorem twice_included_two_edges:
  "adjList (visitAll demoEnv twiceRun circularImportCtx) 1 = Some [2, 2]
   \<and> inDegrees (visitAll demoEnv twiceRun circularImportCtx) 2 = Some 2
   \<and> filenameToId (visitAll demoEnv twiceRun circularImportCtx) ''a.thrift'' = Some 1
   \<and> filenameToId (visitAll demoEnv twiceRun circularImportCtx) ''b.thrift'' = Some 2"
  by (simp add: twiceRun_def run_simps)

text \<open>
  Claim C7, amended. If one file includes the same normalised file twice, wherever the
  two includes stand in the run, the adjacency list of the importer holds the importee
  twice (two parallel edges, not one), and the in-degree of the importee is incremented
  exactly twice by them. In general, for every run, with \<open>a\<close> and \<open>b\<close> the ids of
  the paths \<open>p\<close> and \<open>q\<close>: the adjacency list of \<open>a\<close> holds \<open>b\<close> once for
  every edge insertion of the pair (p, q); the in-degree of \<open>b\<close> is that number plus
  the number of insertions into \<open>q\<close> from other importers, that is the number of
  edge insertions that targeted \<open>q\<close>; and it is the number of adjacency-list entries
  that name \<open>b\<close>.
\<close>

theorem twice_included:
  assumes pa: "filenameToId (visitAll env evs circularImportCtx) p = Some a"
    and qb: "filenameToId (visitAll env evs circularImportCtx) q = Some b"
  shows "count_list (neighbours (adjList (visitAll env evs circularImportCtx)) a) b
           = count_list (insertions env evs) (p, q)
     \<and> inDegrees (visitAll env evs circularImportCtx) b
           = Some (int (count_list (insertions env evs) (p, q))
                   + int (length (filter (\<lambda>e. snd e = q \<and> fst e \<noteq> p) (insertions env evs))))
     \<and> inDegrees (visitAll env evs circularImportCtx) b = Some (targeting q (insertions env evs))
     \<and> inDegrees (visitAll env evs circularImportCtx) b
           = Some (int (entries (adjList (visitAll env evs circularImportCtx)) b))"
proof (intro conjI)
  let ?cc = "visitAll env evs circularImportCtx"
  show "count_list (neighbours (adjList ?cc) a) b = count_list (insertions env evs) (p, q)"
    using pa qb by (rule adjacency_counts_includes)
  show t: "inDegrees ?cc b = Some (targeting q (insertions env evs))"
    using qb by (rule inDegree_targeting)
  then show "inDegrees ?cc b
      = Some (int (count_list (insertions env evs) (p, q))
              + int (length (filter (\<lambda>e. snd e = q \<and> fst e \<noteq> p) (insertions env evs))))"
    unfolding targeting_split [of q _ p] .
  from t have "degree (inDegrees ?cc) b = targeting q (insertions env evs)" by (simp add: degree_def)
  then have "targeting q (insertions env evs) = int (entries (adjList ?cc) b)"
    unfolding inDegree_counts_entries by simp
  with t show "inDegrees ?cc b = Some (int (entries (adjList ?cc) b))" by simp
qed

theorem twice_included_witness:
  "filenameToId (visitAll demoEnv interleavedRun circularImportCtx) ''a.thrift'' = Some 1
   \<and> filenameToId (visitAll demoEnv interleavedRun circularImportCtx) ''b.thrift'' = Some 2
   \<and> count_list (insertions demoEnv interleavedRun) (''a.thrift'', ''b.thrift'') = 2
   \<and> adjList (visitAll demoEnv interleavedRun circularImportCtx) 1 = Some [2, 3, 2]
   \<and> count_list (neighbours (adjList (visitAll demoEnv interleavedRun circularImportCtx)) 1) 2 = 2
   \<and> inDegrees (visitAll demoEnv interleavedRun circularImportCtx) 2 = Some 2
   \<and> entries (adjList (visitAll demoEnv interleavedRun circularImportCtx)) 2 = 2"
proof -
  note t = twice_included [OF interleaved_ids]
  have c: "count_list (insertions demoEnv interleavedRun) (''a.thrift'', ''b.thrift'') = 2"
    unfolding interleaved_insertions by simp
  have f: "length (filter (\<lambda>e. snd e = ''b.thrift'' \<and> fst e \<noteq> ''a.thrift'') (insertions demoEnv interleavedRun)) = 0"
    unfolding interleaved_insertions by simp
  have 1: "count_list (neighbours (adjList (visitAll demoEnv interleavedRun circularImportCtx)) 1) 2 = 2"
    using t [THEN conjunct1] unfolding c .
  have 2: "inDegrees (visitAll demoEnv interleavedRun circularImportCtx) 2 = Some 2"
    using t [THEN conjunct2, THEN conjunct1] unfolding c f by simp
  have "inDegrees (visitAll demoEnv interleavedRun circularImportCtx) 2
      = Some (int (entries (adjList (visitAll demoEnv interleavedRun circularImportCtx)) 2))"
    by (rule t [THEN conjunct2, THEN conjunct2, THEN conjunct2])
  with 2 have 3: "entries (adjList (visitAll demoEnv interleavedRun circularImportCtx)) 2 = 2" by simp
  show ?thesis
    by (intro conjI interleaved_ids c interleaved_adjList 1 2 3)
qed

text \<open>
  Claim C8. If the normalisation of the importer path or of the importee path fails
  (whichever of \<open>os.Getwd\<close>, \<open>filepath.Abs\<close> and \<open>filepath.Rel\<close> fails), the visit
  function returns with the shared state exactly as it was: no edge in \<open>adjList\<close>, no
  in-degree, no vertex id, no edge metadata is added. The visit function has no error
  result and no panic of its own, so the edge is skipped silently.
\<close>

theorem visit_skips_unresolvable:
  "isl (getRelPath env filename) \<or> isl (getRelPath env (Path i)) \<Longrightarrow> visit env filename i cc = cc"
  by (auto simp: visit_def split: sum.splits)

theorem visit_skips_unresolvable_witness:
  "isl (getRelPath noWdEnv ''a.thrift'')
   \<and> adjList (visitAll demoEnv singleRun circularImportCtx) 1 = Some [2]
   \<and> visit noWdEnv ''a.thrift'' (includeAt 2 ''c.thrift'') (visitAll demoEnv singleRun circularImportCtx)
       = visitAll demoEnv singleRun circularImportCtx"
proof -
  have h: "isl (getRelPath noWdEnv ''a.thrift'')"
    by (simp add: getRelPath_def noWdEnv_def)
  then have "isl (getRelPath noWdEnv ''a.thrift'')
      \<or> isl (getRelPath noWdEnv (Path (includeAt 2 ''c.thrift'')))" by simp
  from visit_skips_unresolvable [OF this] h show ?thesis
    by (simp add: single_adjList)
qed



text \<open>
  Claim C10. Finalize terminates on every graph that the visit function can have
  accumulated, whatever the orders \<open>ks\<close> and \<open>ks'\<close> in which the two loops over
  \<open>adjList\<close> walk the map: the worklist loop of \<open>lookForCycle\<close> returns (an in-degree
  entry only goes down, so it reaches zero at most once, and the loop goes on only when
  one did), every call of \<open>dfs\<close> returns (each descent adds a vertex to \<open>globalVis\<close>),
  and so do \<open>findCycleVertices\<close> and finalize itself. Returning includes ending in
  one of the two panics; not returning would be \<open>None\<close>.
\<close>

theorem finalize_terminates:
  "(\<exists>r. topologicalPass ks (adjList (visitAll env evs circularImportCtx))
          (inDegrees (visitAll env evs circularImportCtx)) = Some r)
   \<and> (\<exists>r. dfs cur (adjList (visitAll env evs circularImportCtx)) vertices (vis, globalVis) = Some r)
   \<and> (\<exists>r. findCycleVertices ks' (adjList (visitAll env evs circularImportCtx)) = Some r)
   \<and> (\<exists>r. finalize env ks ks' (visitAll env evs circularImportCtx) = Some r)"
proof -
  let ?cc = "visitAll env evs circularImportCtx"
  have inv: "graphInv env evs ?cc" by (rule graphInv_visitAll)
  note fin = graphInv_finite [OF inv]
  have closed: "set (neighbours (adjList ?cc) v) \<subseteq> dom (adjList ?cc)" for v
    by (rule graphInv_closed [OF inv])
  have 1: "\<exists>r. topologicalPass ks (adjList ?cc) (inDegrees ?cc) = Some r"
    by (rule topologicalPass_terminates [OF fin(2)])
  have "finite (insert cur (dom (adjList ?cc)))" using fin(1) by simp
  moreover have "set (neighbours (adjList ?cc) v) \<subseteq> insert cur (dom (adjList ?cc))" for v
    using closed [of v] by blast
  ultimately have "\<exists>r vis' gvis'. dfs cur (adjList ?cc) vertices (vis, globalVis) = Some (r, vis', gvis')
      \<and> globalVis \<subseteq> gvis'"
    by (rule dfs_terminates) simp
  then have 2: "\<exists>r. dfs cur (adjList ?cc) vertices (vis, globalVis) = Some r" by blast
  have 3: "\<exists>r. findCycleVertices ks' (adjList ?cc) = Some r"
    by (rule findCycleVertices_terminates [OF fin(1) closed])
  from lookForCycle_terminates [OF fin(2) fin(1) closed]
  obtain r where "lookForCycle ks ks' (adjList ?cc) (inDegrees ?cc) = Some r" by blast
  then have 4: "\<exists>r. finalize env ks ks' ?cc = Some r" by (rule finalize_Some)
  from 1 2 3 4 show ?thesis by blast
qed

section \<open>Further properties of the code\<close>

text \<open>
  Whenever \<open>findCycleVertices\<close> returns a list of vertices, the list is a cycle of
  the graph: it is not empty, each vertex is an out-neighbour of the one before it, and
  the first is an out-neighbour of the last. This holds for every adjacency map and
  every order of the loop.
\<close>

theorem findCycleVertices_sound:
  "findCycleVertices ks adj = Some (Inr c) \<Longrightarrow> isCycle adj c \<and> hasCycle adj"
  unfolding findCycleVertices_def
  using searchCycle_sound isCycle_hasCycle by blast

theorem findCycleVertices_sound_witness:
  "findCycleVertices [1, 2, 3] (adjList (visitAll demoEnv backImportRun circularImportCtx)) = Some (Inr [1, 3])
   \<and> isCycle (adjList (visitAll demoEnv backImportRun circularImportCtx)) [1, 3]
   \<and> hasCycle (adjList (visitAll demoEnv backImportRun circularImportCtx))"
proof -
  have h: "findCycleVertices [1, 2, 3] (adjList (visitAll demoEnv backImportRun circularImportCtx)) = Some (Inr [1, 3])"
    unfolding back_adjList by (rule back_find)
  from findCycleVertices_sound [OF h] h show ?thesis by blast
qed

text \<open>
  Edge metadata is never overwritten: an Include node recorded for a pair of vertices
  is still the one recorded for it after any further visits.
\<close>

theorem edge_metadata_never_overwritten:
  "metaOf cc u v = Some i0 \<Longrightarrow> metaOf (visitAll env evs cc) u v = Some i0"
proof (induction evs arbitrary: cc)
  case Nil
  then show ?case by simp
next
  case (Cons e evs)
  from Cons.prems have "metaOf (visit env (fst e) (snd e) cc) u v = Some i0"
    by (rule visit_keeps_meta)
  then show ?case by (simp add: Cons.IH)
qed

theorem edge_metadata_never_overwritten_witness:
  "metaOf (visitAll demoEnv singleRun circularImportCtx) 1 2 = Some (includeAt 1 ''b.thrift'')
   \<and> metaOf (visitAll demoEnv [(''a.thrift'', includeAt 2 ''./b.thrift'')]
        (visitAll demoEnv singleRun circularImportCtx)) 1 2 = Some (includeAt 1 ''b.thrift'')"
proof -
  have h: "metaOf (visitAll demoEnv singleRun circularImportCtx) 1 2 = Some (includeAt 1 ''b.thrift'')"
    by (simp add: metaOf_def singleRun_def run_simps)
  from edge_metadata_never_overwritten [OF h] h show ?thesis by blast
qed

end
